theory Spec2Isabelle
  imports Main "HOL-Library.Word"
begin

unbundle bit_operations_syntax

section \<open>The epoll reactor of poll_default_linux.go\<close>

text \<open>
  The poller is a sequential program around system calls and client callbacks.  Each
  function of the source becomes a function that returns, next to its result and the
  updated poller, the list of the external calls it makes, in program order.  What the
  outside world answers (the result of a system call, of \<open>do()\<close>, of \<open>Inputs\<close>)
  is an argument of the model, so a theorem about all arguments covers every behaviour
  of the kernel and of the callbacks.
\<close>

subsection \<open>Constants of the Linux interface\<close>

type_synonym errno = nat

definition EINTR :: errno where "EINTR = 4"
definition EAGAIN :: errno where "EAGAIN = 11"

definition EPOLLIN :: "32 word" where "EPOLLIN = 0x1"
definition EPOLLOUT :: "32 word" where "EPOLLOUT = 0x4"
definition EPOLLERR :: "32 word" where "EPOLLERR = 0x8"
definition EPOLLHUP :: "32 word" where "EPOLLHUP = 0x10"
definition EPOLLRDHUP :: "32 word" where "EPOLLRDHUP = 0x2000"

text \<open>
  Modelled from the spec: \<open>EPOLLET\<close> is declared in a file of the package that is not
  part of the sources at hand; the spec calls it the ET interest bit, which on Linux is
  bit 31 of the 32-bit event mask.
\<close>

definition EPOLLET :: "32 word" where "EPOLLET = 0x80000000"

definition MSG_ERRQUEUE :: int where "MSG_ERRQUEUE = 0x2000"

definition EPOLL_CTL_ADD :: int where "EPOLL_CTL_ADD = 1"
definition EPOLL_CTL_DEL :: int where "EPOLL_CTL_DEL = 2"
definition EPOLL_CTL_MOD :: int where "EPOLL_CTL_MOD = 3"

text \<open>
  Modelled from the spec: \<open>barriercap\<close> is declared elsewhere in the package; the spec
  gives the barrier width as a small constant, 32.
\<close>

definition barriercap :: int where "barriercap = 32"

subsection \<open>Data\<close>

text \<open>
  Modelled from the spec: the type \<open>PollEvent\<close> is declared elsewhere in the package;
  the spec lists its six values.
\<close>

datatype PollEvent =
  PollReadable | PollWritable | PollModReadable | PollDetach | PollR2RW | PollRW2R

text \<open>
  Modelled from the spec: \<open>FDOperator\<close> is declared elsewhere in the package.  The
  record has the fields the poller reads: the descriptor and the optional callbacks
  (\<open>None\<close> is Go's \<open>nil\<close>; a callback is named by a number).
\<close>

type_synonym callback = nat

record FDOperator =
  FD :: int
  OnRead :: "callback option"
  OnWrite :: "callback option"
  OnHup :: "callback option"
  Inputs :: "callback option"
  Outputs :: "callback option"

text \<open>
  An \<open>epollevent\<close> has the 32-bit mask and the data field, which holds the address of
  an operator; the model stores the operator the address points to.
\<close>

record epollevent =
  events :: "32 word"
  data :: FDOperator

text \<open>
  \<open>pollArgs\<close>: the two scratch arrays are represented by their lengths
  (\<open>events_len\<close>, \<open>barriers_len\<close>).  Their contents are written by the kernel and by
  \<open>Inputs\<close>/\<open>Outputs\<close>, whose results are arguments of the model.  The field
  \<open>size\<close> is \<open>psize\<close> here.
\<close>

record pollArgs =
  psize :: int
  caps :: int
  events_len :: nat
  barriers_len :: nat
  hups :: "callback option list"

record defaultPoll = pollArgs +
  fd :: int
  wop :: FDOperator
  buf :: "8 word list"
  trigger :: "32 word"

datatype logmsg =
    ReadvFailed int errno
  | SendmsgFailed int errno
  | CriticalProblem "32 word" FDOperator
  | DetachFailed errno

text \<open>The external calls, with their arguments.\<close>

datatype action =
    CallDo FDOperator
  | CallDone FDOperator
  | CallInuse FDOperator
  | CallControl FDOperator PollEvent
  | SysRead int nat
  | StoreTrigger "32 word"
  | AddTrigger "32 word"
  | SysClose int
  | SysWrite int "8 word list"
  | CallOnRead FDOperator
  | CallInputs FDOperator nat
  | SysReadv int nat
  | CallInputAck FDOperator int
  | SysRecvmsg int int
  | CallOnWrite FDOperator
  | CallOutputs FDOperator nat
  | SysSendmsg int nat bool
  | CallOutputAck FDOperator int
  | Log logmsg
  | SysEpollCtl int int int epollevent
  | SysEpollWait int nat int
  | GoOnHups "callback option list"
  | OpcacheFree
  | Gosched

text \<open>
  What the outside world answers while one event is handled: the result of \<open>do()\<close>,
  the bytes \<open>read\<close> delivers from the eventfd, the number of slices \<open>Inputs\<close> and
  \<open>Outputs\<close> return (and the zero-copy hint), the results of \<open>readv\<close>, \<open>sendmsg\<close>
  and \<open>recvmsg\<close>, and the result of \<open>operator.Control(PollDetach)\<close>.  Each of these
  calls is made at most once per event.
\<close>

record replies =
  do_ret :: bool
  read_ret :: "8 word list"
  inputs_ret :: nat
  readv_ret :: "int \<times> errno option"
  recvmsg_err :: "errno option"
  outputs_ret :: "nat \<times> bool"
  sendmsg_ret :: "int \<times> errno option"
  detach_err :: "errno option"

datatype flow = Fallthrough | Continue | ReturnTrue | Panicked

datatype 'a outcome = Return 'a | Panic | Running

subsection \<open>pollArgs.reset\<close>

text \<open>
  \<open>reset\<close> allocates both arrays with \<open>size\<close> slots.  (\<open>make\<close> panics on a negative
  length; \<open>Wait\<close> calls \<open>reset\<close> with 128 and with the double of a size of at least
  128 only.)
\<close>

definition reset :: "defaultPoll \<Rightarrow> int \<Rightarrow> int \<Rightarrow> defaultPoll" where
  "reset a size' caps' =
     a\<lparr>psize := size', caps := caps', events_len := nat size', barriers_len := nat size'\<rparr>"

subsection \<open>Control, Trigger, Close\<close>

text \<open>
  \<open>Control\<close>: the switch sets the operation and the interest bits, the two ADD cases
  call \<open>inuse()\<close> first; then \<open>EpollCtl\<close> is called and its result \<open>r\<close> returned.
\<close>

definition Control ::
  "defaultPoll \<Rightarrow> FDOperator \<Rightarrow> PollEvent \<Rightarrow> errno option \<Rightarrow> errno option \<times> action list" where
  "Control p operator event r =
     (let (t, op, evts) =
        (case event of
           PollReadable \<Rightarrow>
             ([CallInuse operator], EPOLL_CTL_ADD, EPOLLIN OR EPOLLRDHUP OR EPOLLERR)
         | PollWritable \<Rightarrow>
             ([CallInuse operator], EPOLL_CTL_ADD, EPOLLET OR EPOLLOUT OR EPOLLRDHUP OR EPOLLERR)
         | PollModReadable \<Rightarrow>
             ([], EPOLL_CTL_MOD, EPOLLIN OR EPOLLRDHUP OR EPOLLERR)
         | PollDetach \<Rightarrow>
             ([], EPOLL_CTL_DEL, EPOLLIN OR EPOLLOUT OR EPOLLRDHUP OR EPOLLERR)
         | PollR2RW \<Rightarrow>
             ([], EPOLL_CTL_MOD, EPOLLIN OR EPOLLOUT OR EPOLLRDHUP OR EPOLLERR)
         | PollRW2R \<Rightarrow>
             ([], EPOLL_CTL_MOD, EPOLLIN OR EPOLLRDHUP OR EPOLLERR))
      in (r, t @ [SysEpollCtl (fd p) op (FD operator) \<lparr>events = evts, data = operator\<rparr>]))"

text \<open>
  \<open>Trigger\<close>: \<open>atomic.AddUint32\<close> returns the new value of the 32-bit flag, which
  wraps around.  \<open>w\<close> is the result of the write.
\<close>

definition Trigger ::
  "defaultPoll \<Rightarrow> errno option \<Rightarrow> errno option \<times> action list \<times> defaultPoll" where
  "Trigger p w =
     (let p' = p\<lparr>trigger := trigger p + 1\<rparr>
      in if 1 < trigger p' then (None, [AddTrigger 1], p')
         else (w, [AddTrigger 1, SysWrite (FD (wop p)) [0, 0, 0, 0, 0, 0, 0, 1]], p'))"

definition Close :: "defaultPoll \<Rightarrow> errno option \<Rightarrow> errno option \<times> action list" where
  "Close p w = (w, [SysWrite (FD (wop p)) [1, 0, 0, 0, 0, 0, 0, 0]])"

text \<open>The 64-bit value that a little-endian machine reads from a sequence of bytes.\<close>

fun le_value :: "8 word list \<Rightarrow> 64 word" where
  "le_value [] = 0"
| "le_value (b # bs) = ucast b OR push_bit 8 (le_value bs)"

subsection \<open>appendHup and detaches\<close>

text \<open>
  \<open>appendHup\<close>: the callback is appended, \<open>operator.Control(PollDetach)\<close> is called
  (a method of the operator, an external call with the result \<open>r\<close>), a failure is
  logged, and \<open>done()\<close> is called.
\<close>

definition appendHup ::
  "defaultPoll \<Rightarrow> FDOperator \<Rightarrow> errno option \<Rightarrow> action list \<times> defaultPoll" where
  "appendHup p operator r =
     (let p' = p\<lparr>hups := hups p @ [OnHup operator]\<rparr>
      in ([CallControl operator PollDetach]
          @ (case r of None \<Rightarrow> [] | Some e \<Rightarrow> [Log (DetachFailed e)])
          @ [CallDone operator],
          p'))"

text \<open>
  \<open>detaches\<close> hands the collected callbacks to a new goroutine; what the goroutine does
  is concurrent with the reactor and is not part of the model.
\<close>

definition detaches :: "defaultPoll \<Rightarrow> action list \<times> defaultPoll" where
  "detaches p =
     (if length (hups p) = 0 then ([], p) else ([GoOnHups (hups p)], p\<lparr>hups := []\<rparr>))"

subsection \<open>The handler\<close>

text \<open>
  \<open>syscall.Read(fd, buf)\<close> overwrites the first bytes of the buffer with the bytes it
  delivers, at most \<open>len(buf)\<close> of them.
\<close>

definition sys_read :: "8 word list \<Rightarrow> 8 word list \<Rightarrow> 8 word list" where
  "sys_read b d = take (length b) d @ drop (length d) b"

text \<open>
  The statement \<open>if evt&syscall.EPOLLIN != 0 { ... }\<close>.  \<open>Fallthrough\<close>: control
  reaches the statement after it; \<open>Continue\<close>: the \<open>continue\<close> after a failed
  \<open>readv\<close>; \<open>Panicked\<close>: the index \<open>p.barriers[i]\<close> is out of range.
\<close>

definition handler_in ::
  "defaultPoll \<Rightarrow> nat \<Rightarrow> FDOperator \<Rightarrow> 32 word \<Rightarrow> replies \<Rightarrow> flow \<times> action list \<times> defaultPoll" where
  "handler_in p i operator evt w =
     (if evt AND EPOLLIN \<noteq> 0 then
        (if OnRead operator \<noteq> None then (Fallthrough, [CallOnRead operator], p)
         else if Inputs operator \<noteq> None then
           (if i < barriers_len p then
              (if 0 < inputs_ret w then
                 (let (n, err) = readv_ret w;
                      t = [CallInputs operator i, SysReadv (FD operator) i,
                           CallInputAck operator n]
                  in case err of
                       None \<Rightarrow> (Fallthrough, t, p)
                     | Some e \<Rightarrow>
                         if e \<noteq> EAGAIN \<and> e \<noteq> EINTR then
                           (let (th, p') = appendHup p operator (detach_err w)
                            in (Continue, t @ [Log (ReadvFailed (FD operator) e)] @ th, p'))
                         else (Fallthrough, t, p))
               else (Fallthrough, [CallInputs operator i], p))
            else (Panicked, [], p))
         else (Fallthrough, [Log (CriticalProblem evt operator)], p))
      else (Fallthrough, [], p))"

text \<open>
  The statement \<open>if evt&syscall.EPOLLOUT != 0 { ... }\<close>; zero-copy is switched off in
  the call of \<open>sendmsg\<close>.
\<close>

definition handler_out ::
  "defaultPoll \<Rightarrow> nat \<Rightarrow> FDOperator \<Rightarrow> 32 word \<Rightarrow> replies \<Rightarrow> flow \<times> action list \<times> defaultPoll" where
  "handler_out p i operator evt w =
     (if evt AND EPOLLOUT \<noteq> 0 then
        (if OnWrite operator \<noteq> None then (Fallthrough, [CallOnWrite operator], p)
         else if Outputs operator \<noteq> None then
           (if i < barriers_len p then
              (let (bs, supportZeroCopy) = outputs_ret w
               in if 0 < bs then
                    (let (n, err) = sendmsg_ret w;
                         t = [CallOutputs operator i,
                              SysSendmsg (FD operator) i (False \<and> supportZeroCopy),
                              CallOutputAck operator n]
                     in case err of
                          None \<Rightarrow> (Fallthrough, t, p)
                        | Some e \<Rightarrow>
                            if e \<noteq> EAGAIN then
                              (let (th, p') = appendHup p operator (detach_err w)
                               in (Continue, t @ [Log (SendmsgFailed (FD operator) e)] @ th, p'))
                            else (Fallthrough, t, p))
                  else (Fallthrough, [CallOutputs operator i], p))
            else (Panicked, [], p))
         else (Fallthrough, [Log (CriticalProblem evt operator)], p))
      else (Fallthrough, [], p))"

text \<open>
  One iteration of the loop of \<open>handler\<close>, for the event in slot \<open>i\<close>.  \<open>Continue\<close>:
  the loop goes on with the next event; \<open>ReturnTrue\<close>: \<open>return true\<close>;
  \<open>Panicked\<close>: an index out of range (\<open>p.buf[0]\<close> on an empty buffer,
  \<open>p.barriers[i]\<close>).
\<close>

definition handler_body ::
  "defaultPoll \<Rightarrow> nat \<Rightarrow> epollevent \<Rightarrow> replies \<Rightarrow> flow \<times> action list \<times> defaultPoll" where
  "handler_body p i ev w =
     (let operator = data ev in
      if \<not> do_ret w then (Continue, [CallDo operator], p)
      else if FD operator = FD (wop p) then
        (let p1 = p\<lparr>buf := sys_read (buf p) (read_ret w), trigger := 0\<rparr>;
             t1 = [CallDo operator, SysRead (FD (wop p)) (length (buf p)), StoreTrigger 0]
         in case buf p1 of
              [] \<Rightarrow> (Panicked, t1, p1)
            | b # bs \<Rightarrow>
                if 0 < b then
                  (ReturnTrue,
                   t1 @ [SysClose (FD (wop p)), SysClose (fd p), CallDone operator], p1)
                else (Continue, t1 @ [CallDone operator], p1))
      else
        (let evt = events ev;
             (f1, t1, p1) = handler_in p i operator evt w
         in if f1 \<noteq> Fallthrough then (f1, CallDo operator # t1, p1)
            else if evt AND (EPOLLHUP OR EPOLLRDHUP) \<noteq> 0 then
              (let (th, p2) = appendHup p1 operator (detach_err w)
               in (Continue, CallDo operator # t1 @ th, p2))
            else if evt AND EPOLLERR \<noteq> 0 then
              (if recvmsg_err w \<noteq> Some EAGAIN then
                 (let (th, p2) = appendHup p1 operator (detach_err w)
                  in (Continue, CallDo operator # t1 @ SysRecvmsg (FD operator) MSG_ERRQUEUE # th, p2))
               else
                 (Continue,
                  CallDo operator # t1 @ [SysRecvmsg (FD operator) MSG_ERRQUEUE, CallDone operator], p1))
            else
              (let (f2, t2, p2) = handler_out p1 i operator evt w
               in if f2 \<noteq> Fallthrough then (f2, CallDo operator # t1 @ t2, p2)
                  else (Continue, CallDo operator # t1 @ t2 @ [CallDone operator], p2))))"

text \<open>
  The loop \<open>for i := range events\<close>, from slot \<open>i\<close> on.  \<open>Fallthrough\<close>: the loop
  has ended and \<open>detaches\<close> is next.
\<close>

fun handler_loop ::
  "defaultPoll \<Rightarrow> nat \<Rightarrow> (epollevent \<times> replies) list \<Rightarrow> flow \<times> action list \<times> defaultPoll" where
  "handler_loop p i [] = (Fallthrough, [], p)"
| "handler_loop p i (e # es) =
     (case handler_body p i (fst e) (snd e) of
        (ReturnTrue, t, p') \<Rightarrow> (ReturnTrue, t, p')
      | (Panicked, t, p') \<Rightarrow> (Panicked, t, p')
      | (_, t, p') \<Rightarrow>
          (case handler_loop p' (Suc i) es of (f, t', p'') \<Rightarrow> (f, t @ t', p'')))"

definition handler ::
  "defaultPoll \<Rightarrow> (epollevent \<times> replies) list \<Rightarrow> bool outcome \<times> action list \<times> defaultPoll" where
  "handler p evs =
     (case handler_loop p 0 evs of
        (ReturnTrue, t, p') \<Rightarrow> (Return True, t, p')
      | (Panicked, t, p') \<Rightarrow> (Panic, t, p')
      | (_, t, p') \<Rightarrow> (case detaches p' of (td, p'') \<Rightarrow> (Return False, t @ td, p'')))"

subsection \<open>Wait\<close>

text \<open>
  One answer of \<open>EpollWait\<close>: the count, the error, and the contents of the event array
  after the call, slot by slot, each event with the answers of the outside world for its
  handling.
\<close>

record epoll_ret =
  ret_n :: int
  ret_err :: "errno option"
  ret_events :: "nat \<Rightarrow> epollevent \<times> replies"

text \<open>
  The first statement of the loop of \<open>Wait\<close>: the arrays are reallocated with the
  double size when the last \<open>EpollWait\<close> filled the event array.  The size stays below
  \<open>2 * 128 * 1024\<close>, so \<open>p.size<<1\<close> is the double.

  The loop of \<open>Wait\<close>, with the local variables \<open>n\<close> and \<open>msec\<close>, against the list
  of the answers of the successive \<open>EpollWait\<close> calls.  When the list is used up the
  loop is still running (\<open>Running\<close>): \<open>Wait\<close> has not returned.  \<open>p.events[:n]\<close>
  panics when \<open>n\<close> exceeds the capacity of the array.  \<open>p.Reset\<close> and \<open>p.Handler\<close>
  are the fields \<open>openDefaultPoll\<close> sets to \<open>reset\<close> and \<open>handler\<close>.
\<close>

definition Wait_grow :: "defaultPoll \<Rightarrow> int \<Rightarrow> defaultPoll" where
  "Wait_grow p n =
     (if n = psize p \<and> psize p < 128 * 1024 then reset p (2 * psize p) barriercap else p)"

fun Wait_loop ::
  "defaultPoll \<Rightarrow> int \<Rightarrow> int \<Rightarrow> epoll_ret list \<Rightarrow> errno option outcome \<times> action list \<times> defaultPoll" where
  "Wait_loop p n msec [] = (Running, [], p)"
| "Wait_loop p n msec (r # rs) =
     (let p1 = Wait_grow p n;
          t1 = [SysEpollWait (fd p1) (events_len p1) msec]
      in if ret_err r \<noteq> None \<and> ret_err r \<noteq> Some EINTR then (Return (ret_err r), t1, p1)
         else if ret_n r \<le> 0 then
           (case Wait_loop p1 (ret_n r) (- 1) rs of
              (res, t, p') \<Rightarrow> (res, t1 @ [Gosched] @ t, p'))
         else if int (events_len p1) < ret_n r then (Panic, t1, p1)
         else
           (case handler p1 (map (ret_events r) [0..<nat (ret_n r)]) of
              (Return True, th, p2) \<Rightarrow> (Return None, t1 @ th, p2)
            | (Return False, th, p2) \<Rightarrow>
                (case Wait_loop p2 (ret_n r) 0 rs of
                   (res, t, p') \<Rightarrow> (res, t1 @ th @ [OpcacheFree] @ t, p'))
            | (_, th, p2) \<Rightarrow> (Panic, t1 @ th, p2)))"

definition Wait ::
  "defaultPoll \<Rightarrow> epoll_ret list \<Rightarrow> errno option outcome \<times> action list \<times> defaultPoll" where
  "Wait p rs = Wait_loop (reset p 128 barriercap) 0 (- 1) rs"

subsection \<open>Reading the list of calls\<close>

fun done_of :: "action \<Rightarrow> FDOperator list" where
  "done_of (CallDone operator) = [operator]"
| "done_of _ = []"

fun do_of :: "action \<Rightarrow> FDOperator list" where
  "do_of (CallDo operator) = [operator]"
| "do_of _ = []"

text \<open>The operators on which \<open>done()\<close>, and \<open>do()\<close>, are called, in order.\<close>

definition done_calls :: "action list \<Rightarrow> FDOperator list" where
  "done_calls t = concat (map done_of t)"

definition do_calls :: "action list \<Rightarrow> FDOperator list" where
  "do_calls t = concat (map do_of t)"

text \<open>
  The calls of the write side and of the read side of the handler, the start of the
  hang-up goroutine, the closing of a descriptor.
\<close>

fun is_out :: "action \<Rightarrow> bool" where
  "is_out (CallOnWrite operator) = True"
| "is_out (CallOutputs operator i) = True"
| "is_out (SysSendmsg f i z) = True"
| "is_out (CallOutputAck operator n) = True"
| "is_out _ = False"

fun is_in :: "action \<Rightarrow> bool" where
  "is_in (CallOnRead operator) = True"
| "is_in (CallInputs operator i) = True"
| "is_in (SysReadv f i) = True"
| "is_in (CallInputAck operator n) = True"
| "is_in (Log (CriticalProblem evt operator)) = True"
| "is_in (Log (ReadvFailed f e)) = True"
| "is_in _ = False"

fun is_go :: "action \<Rightarrow> bool" where
  "is_go (GoOnHups hs) = True"
| "is_go _ = False"

fun is_close :: "action \<Rightarrow> bool" where
  "is_close (SysClose f) = True"
| "is_close _ = False"

text \<open>
  The hang-up callbacks recorded by the detaches among the calls: \<open>appendHup\<close> appends
  \<open>OnHup\<close> of the operator it detaches.
\<close>

fun hup_of :: "action \<Rightarrow> callback option list" where
  "hup_of (CallControl operator PollDetach) = [OnHup operator]"
| "hup_of _ = []"

definition hups_of :: "action list \<Rightarrow> callback option list" where
  "hups_of t = concat (map hup_of t)"

text \<open>
  The conditions under which the handler calls \<open>readv\<close> for an event, and under which
  it takes the result of \<open>readv\<close> for a failure
  (\<open>err != nil && err != EAGAIN && err != EINTR\<close>).
\<close>

definition readv_called :: "epollevent \<Rightarrow> replies \<Rightarrow> bool" where
  "readv_called ev w =
     (events ev AND EPOLLIN \<noteq> 0 \<and> OnRead (data ev) = None \<and> Inputs (data ev) \<noteq> None
      \<and> 0 < inputs_ret w)"

definition readv_failed :: "replies \<Rightarrow> bool" where
  "readv_failed w =
     (case snd (readv_ret w) of None \<Rightarrow> False | Some e \<Rightarrow> e \<noteq> EAGAIN \<and> e \<noteq> EINTR)"

text \<open>The lengths of the event array in the successive \<open>EpollWait\<close> calls.\<close>

fun wait_len_of :: "action \<Rightarrow> nat list" where
  "wait_len_of (SysEpollWait f len msec) = [len]"
| "wait_len_of _ = []"

definition wait_lens :: "action list \<Rightarrow> nat list" where
  "wait_lens t = concat (map wait_len_of t)"

text \<open>
  The rule of the spec for the size of the event array, as a function of its own: the
  sizes used by successive calls that return the counts \<open>ns\<close>, starting from \<open>s\<close>;
  the size doubles after a call that fills the array, up to \<open>128 * 1024\<close>.
\<close>

fun doubling :: "nat \<Rightarrow> int list \<Rightarrow> nat list" where
  "doubling s [] = []"
| "doubling s (n # ns) = s # doubling (if n = int s \<and> s < 128 * 1024 then 2 * s else s) ns"

subsection \<open>A poller and operators to run the model on\<close>

text \<open>
  The field values \<open>openDefaultPoll\<close> assigns, for the epoll descriptor \<open>epfd\<close> and
  the eventfd \<open>efd\<close>.
\<close>

definition new_poll :: "int \<Rightarrow> int \<Rightarrow> defaultPoll" where
  "new_poll epfd efd =
     \<lparr>psize = 0, caps = 0, events_len = 0, barriers_len = 0, hups = [],
      fd = epfd,
      wop = \<lparr>FD = efd, OnRead = None, OnWrite = None, OnHup = None,
             Inputs = None, Outputs = None\<rparr>,
      buf = [0, 0, 0, 0, 0, 0, 0, 0], trigger = 0\<rparr>"

text \<open>The poller on descriptors 3 and 4, with its arrays allocated as \<open>Wait\<close> does first.\<close>

definition poll34 :: defaultPoll where
  "poll34 = reset (new_poll 3 4) 128 barriercap"

text \<open>A connection on descriptor 7, a listener on descriptor 5, an operator without callbacks.\<close>

definition conn7 :: FDOperator where
  "conn7 = \<lparr>FD = 7, OnRead = None, OnWrite = None, OnHup = Some 70,
            Inputs = Some 71, Outputs = Some 72\<rparr>"

definition listener5 :: FDOperator where
  "listener5 = \<lparr>FD = 5, OnRead = Some 50, OnWrite = None, OnHup = Some 51,
                Inputs = None, Outputs = None\<rparr>"

definition bare9 :: FDOperator where
  "bare9 = \<lparr>FD = 9, OnRead = None, OnWrite = None, OnHup = None,
            Inputs = None, Outputs = None\<rparr>"

text \<open>
  Answers of a quiet world: \<open>do()\<close> succeeds, the eventfd delivers the bytes \<open>bs\<close>,
  \<open>Inputs\<close> and \<open>Outputs\<close> offer one slice, \<open>readv\<close> and \<open>sendmsg\<close> transfer 6
  bytes, the error queue is empty (\<open>EAGAIN\<close>), the detach succeeds.
\<close>

definition quiet :: "8 word list \<Rightarrow> replies" where
  "quiet bs =
     \<lparr>do_ret = True, read_ret = bs, inputs_ret = 1, readv_ret = (6, None),
      recvmsg_err = Some EAGAIN, outputs_ret = (1, False), sendmsg_ret = (6, None),
      detach_err = None\<rparr>"

definition trigger_bytes :: "8 word list" where
  "trigger_bytes = [0, 0, 0, 0, 0, 0, 0, 1]"

definition close_bytes :: "8 word list" where
  "close_bytes = [1, 0, 0, 0, 0, 0, 0, 0]"

text \<open>
  Batches and answers of \<open>EpollWait\<close>: a shutdown followed by a listener event; a
  hang-up, a trigger wake and a detached operator; 128 events of detached operators (a
  full array); an interrupted and a failed call; a hang-up followed by a shutdown and a
  listener event; a shutdown alone.
\<close>

definition shutdown_batch :: "(epollevent \<times> replies) list" where
  "shutdown_batch =
     [(\<lparr>events = EPOLLIN, data = wop poll34\<rparr>, quiet close_bytes),
      (\<lparr>events = EPOLLIN, data = listener5\<rparr>, quiet [])]"

definition mixed_batch :: "(epollevent \<times> replies) list" where
  "mixed_batch =
     [(\<lparr>events = EPOLLIN OR EPOLLRDHUP, data = conn7\<rparr>, quiet []),
      (\<lparr>events = EPOLLIN, data = wop poll34\<rparr>, quiet trigger_bytes),
      (\<lparr>events = EPOLLIN, data = bare9\<rparr>, (quiet [])\<lparr>do_ret := False\<rparr>)]"

definition full_batch :: epoll_ret where
  "full_batch =
     \<lparr>ret_n = 128, ret_err = None,
      ret_events =
        (\<lambda>i. (\<lparr>events = EPOLLIN, data = listener5\<rparr>, (quiet [])\<lparr>do_ret := False\<rparr>))\<rparr>"

definition interrupted :: epoll_ret where
  "interrupted =
     \<lparr>ret_n = - 1, ret_err = Some EINTR,
      ret_events = (\<lambda>i. (\<lparr>events = 0, data = bare9\<rparr>, quiet []))\<rparr>"

definition failing :: epoll_ret where
  "failing =
     \<lparr>ret_n = - 1, ret_err = Some 9,
      ret_events = (\<lambda>i. (\<lparr>events = 0, data = bare9\<rparr>, quiet []))\<rparr>"

definition hup_close_batch :: "(epollevent \<times> replies) list" where
  "hup_close_batch =
     [(\<lparr>events = EPOLLIN OR EPOLLRDHUP, data = conn7\<rparr>, quiet []),
      (\<lparr>events = EPOLLIN, data = wop poll34\<rparr>, quiet close_bytes)]"

definition closing :: epoll_ret where
  "closing =
     \<lparr>ret_n = 3, ret_err = None,
      ret_events =
        (\<lambda>i. if i < 2 then hup_close_batch ! i
             else (\<lparr>events = EPOLLIN, data = listener5\<rparr>, quiet []))\<rparr>"

definition close_wake :: epoll_ret where
  "close_wake =
     \<lparr>ret_n = 1, ret_err = None,
      ret_events = (\<lambda>i. (\<lparr>events = EPOLLIN, data = wop poll34\<rparr>, quiet close_bytes))\<rparr>"

section \<open>Control\<close>

lemma interest_bits:
  "EPOLLIN OR EPOLLRDHUP OR EPOLLERR = 0x2009"
  "EPOLLET OR EPOLLOUT OR EPOLLRDHUP OR EPOLLERR = 0x8000200C"
  "EPOLLIN OR EPOLLOUT OR EPOLLRDHUP OR EPOLLERR = 0x200D"
  by (simp_all add: EPOLLIN_def EPOLLRDHUP_def EPOLLERR_def EPOLLET_def EPOLLOUT_def)

text \<open>
  C3.  For each of the six events \<open>Control\<close> makes exactly one \<open>epoll_ctl\<close> call, on
  the poller's descriptor and the operator's descriptor, with the operation and the
  interest bits of the table: ADD with IN, RDHUP, ERR for \<open>PollReadable\<close>; ADD with ET,
  OUT, RDHUP, ERR for \<open>PollWritable\<close>; MOD with IN, RDHUP, ERR for \<open>PollModReadable\<close>
  and \<open>PollRW2R\<close>; MOD with IN, OUT, RDHUP, ERR for \<open>PollR2RW\<close>; DEL for
  \<open>PollDetach\<close>.  The call of \<open>inuse()\<close> comes before the system call for the two
  ADD events, and is not made for the others.  \<open>Control\<close> returns what \<open>epoll_ctl\<close>
  returns.
\<close>

theorem Control_table:
  "Control p operator PollReadable r =
     (r, [CallInuse operator,
          SysEpollCtl (fd p) EPOLL_CTL_ADD (FD operator)
            \<lparr>events = EPOLLIN OR EPOLLRDHUP OR EPOLLERR, data = operator\<rparr>])
   \<and> Control p operator PollWritable r =
     (r, [CallInuse operator,
          SysEpollCtl (fd p) EPOLL_CTL_ADD (FD operator)
            \<lparr>events = EPOLLET OR EPOLLOUT OR EPOLLRDHUP OR EPOLLERR, data = operator\<rparr>])
   \<and> Control p operator PollModReadable r =
     (r, [SysEpollCtl (fd p) EPOLL_CTL_MOD (FD operator)
            \<lparr>events = EPOLLIN OR EPOLLRDHUP OR EPOLLERR, data = operator\<rparr>])
   \<and> Control p operator PollRW2R r =
     (r, [SysEpollCtl (fd p) EPOLL_CTL_MOD (FD operator)
            \<lparr>events = EPOLLIN OR EPOLLRDHUP OR EPOLLERR, data = operator\<rparr>])
   \<and> Control p operator PollR2RW r =
     (r, [SysEpollCtl (fd p) EPOLL_CTL_MOD (FD operator)
            \<lparr>events = EPOLLIN OR EPOLLOUT OR EPOLLRDHUP OR EPOLLERR, data = operator\<rparr>])
   \<and> (\<exists>bits. Control p operator PollDetach r =
     (r, [SysEpollCtl (fd p) EPOLL_CTL_DEL (FD operator) \<lparr>events = bits, data = operator\<rparr>]))
   \<and> (CallInuse operator \<in> set (snd (Control p operator event r))
        \<longleftrightarrow> event = PollReadable \<or> event = PollWritable)"
  by (cases event) (simp_all add: Control_def)

theorem Control_table_witness:
  "snd (Control poll34 (wop poll34) PollReadable None) =
     [CallInuse (wop poll34), SysEpollCtl 3 1 4 \<lparr>events = 0x2009, data = wop poll34\<rparr>]"
  using Control_table [of poll34 "wop poll34" None PollReadable]
  by (simp add: poll34_def new_poll_def reset_def interest_bits EPOLL_CTL_ADD_def)

section \<open>Trigger\<close>

lemma word32_succ_gt_one: "(1 :: 32 word) < x + 1 \<longleftrightarrow> x \<noteq> 0 \<and> x \<noteq> - 1"
proof -
  have ux: "unat x < 4294967296"
    using unsigned_less [of x, where ?'a = nat] by simp
  have m1: "x = - 1 \<longleftrightarrow> unat x = 4294967295"
    by (simp add: word_eq_iff_unsigned [where ?'a = nat] unsigned_minus_1_eq_mask
        mask_eq_exp_minus_1)
  have z: "x = 0 \<longleftrightarrow> unat x = 0"
    by (simp add: unat_0_iff)
  have l: "1 < x + 1 \<longleftrightarrow> 1 < (unat x + 1) mod 4294967296"
    by (simp add: word_less_nat_alt unat_word_ariths)
  show ?thesis
  proof (cases "unat x = 4294967295")
    case True
    then show ?thesis using l m1 by simp
  next
    case False
    with ux have "(unat x + 1) mod 4294967296 = unat x + 1" by simp
    with False show ?thesis using l m1 z by auto
  qed
qed

text \<open>
  C4, as stated, fails where the 32-bit flag wraps around: with the flag at
  \<open>0xFFFFFFFF\<close>, which is not 0, the incremented flag is 0, the test \<open>> 1\<close> fails
  and \<open>Trigger\<close> writes to the eventfd.
\<close>

theorem Trigger_wrap_counterexample:
  "(- 1 :: 32 word) = 0xFFFFFFFF \<and> trigger (poll34\<lparr>trigger := - 1\<rparr>) \<noteq> 0
   \<and> Trigger (poll34\<lparr>trigger := - 1\<rparr>) None =
       (None, [AddTrigger 1, SysWrite 4 [0, 0, 0, 0, 0, 0, 0, 1]], poll34\<lparr>trigger := 0\<rparr>)"
  by (simp add: Trigger_def poll34_def new_poll_def reset_def)

text \<open>
  C4, amended.  For every value of the flag other than \<open>0xFFFFFFFF\<close>: \<open>Trigger\<close>
  increments the flag, and it writes the 8 bytes 0,0,0,0,0,0,0,1 to the eventfd, and
  returns the result of the write, if and only if the flag was 0 before; when the flag
  was not 0 it returns nil and writes nothing.  The bytes are the little-endian value
  \<open>0x0100000000000000\<close>, and byte 0 is zero.
\<close>

theorem Trigger_first_only:
  "trigger p \<noteq> - 1 \<Longrightarrow>
     Trigger p w =
       (if trigger p = 0
        then (w, [AddTrigger 1, SysWrite (FD (wop p)) [0, 0, 0, 0, 0, 0, 0, 1]],
              p\<lparr>trigger := 1\<rparr>)
        else (None, [AddTrigger 1], p\<lparr>trigger := trigger p + 1\<rparr>))
     \<and> le_value [0, 0, 0, 0, 0, 0, 0, 1] = 0x0100000000000000
     \<and> [0, 0, 0, 0, 0, 0, 0, 1 :: 8 word] ! 0 = 0"
  by (simp add: Trigger_def word32_succ_gt_one)

theorem Trigger_first_only_witness:
  "Trigger poll34 (Some EAGAIN) =
     (Some EAGAIN, [AddTrigger 1, SysWrite 4 [0, 0, 0, 0, 0, 0, 0, 1]], poll34\<lparr>trigger := 1\<rparr>)
   \<and> Trigger (poll34\<lparr>trigger := 1\<rparr>) (Some EAGAIN) =
     (None, [AddTrigger 1], poll34\<lparr>trigger := 2\<rparr>)"
  using Trigger_first_only [of poll34 "Some EAGAIN"]
    Trigger_first_only [of "poll34\<lparr>trigger := 1\<rparr>" "Some EAGAIN"]
  by (simp add: poll34_def new_poll_def reset_def)

section \<open>Calls and results of the handler\<close>

lemma calls_append [simp]:
  "done_calls (s @ t) = done_calls s @ done_calls t"
  "do_calls (s @ t) = do_calls s @ do_calls t"
  "hups_of (s @ t) = hups_of s @ hups_of t"
  "wait_lens (s @ t) = wait_lens s @ wait_lens t"
  by (simp_all add: done_calls_def do_calls_def hups_of_def wait_lens_def)

lemma calls_Nil [simp]:
  "done_calls [] = []" "do_calls [] = []" "hups_of [] = []" "wait_lens [] = []"
  by (simp_all add: done_calls_def do_calls_def hups_of_def wait_lens_def)

lemma calls_Cons [simp]:
  "done_calls (a # t) = done_of a @ done_calls t"
  "do_calls (a # t) = do_of a @ do_calls t"
  "hups_of (a # t) = hup_of a @ hups_of t"
  "wait_lens (a # t) = wait_len_of a @ wait_lens t"
  by (simp_all add: done_calls_def do_calls_def hups_of_def wait_lens_def)

lemma appendHup_eq:
  "appendHup p operator r =
     (CallControl operator PollDetach
      # (case r of None \<Rightarrow> [] | Some e \<Rightarrow> [Log (DetachFailed e)]) @ [CallDone operator],
      p\<lparr>hups := hups p @ [OnHup operator]\<rparr>)"
  by (simp add: appendHup_def)

lemma appendHup_calls [simp]:
  "done_calls (fst (appendHup p operator r)) = [operator]"
  "do_calls (fst (appendHup p operator r)) = []"
  "list_ex is_out (fst (appendHup p operator r)) = False"
  "list_ex is_go (fst (appendHup p operator r)) = False"
  "list_ex is_close (fst (appendHup p operator r)) = False"
  "hups_of (fst (appendHup p operator r)) = [OnHup operator]"
  "wait_lens (fst (appendHup p operator r)) = []"
  "OpcacheFree \<notin> set (fst (appendHup p operator r))"
  by (simp_all add: appendHup_eq split: option.split)

lemma appendHup_state [simp]:
  "snd (appendHup p operator r) = p\<lparr>hups := hups p @ [OnHup operator]\<rparr>"
  by (simp add: appendHup_eq)

lemma handler_in_flow:
  "fst (handler_in p i operator evt w) =
     (if evt AND EPOLLIN \<noteq> 0 \<and> OnRead operator = None \<and> Inputs operator \<noteq> None then
        (if i < barriers_len p then
           (if 0 < inputs_ret w \<and> readv_failed w then Continue else Fallthrough)
         else Panicked)
      else Fallthrough)"
  by (simp add: handler_in_def readv_failed_def Let_def split: prod.split option.split)

lemma handler_in_Fallthrough:
  assumes "handler_in p i operator evt w = (Fallthrough, t, p')"
  shows "p' = p" and "list_all is_in t" and "t = [] \<longleftrightarrow> evt AND EPOLLIN = 0"
    and "Inputs operator = None \<Longrightarrow> OnRead operator = None \<Longrightarrow> evt AND EPOLLIN \<noteq> 0 \<Longrightarrow>
           t = [Log (CriticalProblem evt operator)]"
  using assms
  by (simp_all add: handler_in_def Let_def split: if_splits prod.splits option.splits) auto

lemma handler_in_Continue:
  assumes "handler_in p i operator evt w = (Continue, t, p')"
  shows "p' = p\<lparr>hups := hups p @ [OnHup operator]\<rparr>"
    and "\<exists>pre. list_all is_in pre \<and> pre \<noteq> []
           \<and> t = pre @ fst (appendHup p operator (detach_err w))"
    and "evt AND EPOLLIN \<noteq> 0"
proof -
  from assms obtain n e where
    "t = [CallInputs operator i, SysReadv (FD operator) i, CallInputAck operator n,
          Log (ReadvFailed (FD operator) e)] @ fst (appendHup p operator (detach_err w))"
    and p: "p' = p\<lparr>hups := hups p @ [OnHup operator]\<rparr>" and e: "evt AND EPOLLIN \<noteq> 0"
    by (auto simp: handler_in_def Let_def appendHup_eq
        split: if_splits prod.splits option.splits)
  then have "list_all is_in [CallInputs operator i, SysReadv (FD operator) i,
      CallInputAck operator n, Log (ReadvFailed (FD operator) e)]
    \<and> [CallInputs operator i, SysReadv (FD operator) i, CallInputAck operator n,
          Log (ReadvFailed (FD operator) e)] \<noteq> []
    \<and> t = [CallInputs operator i, SysReadv (FD operator) i, CallInputAck operator n,
          Log (ReadvFailed (FD operator) e)] @ fst (appendHup p operator (detach_err w))"
    by simp
  then show "\<exists>pre. list_all is_in pre \<and> pre \<noteq> []
           \<and> t = pre @ fst (appendHup p operator (detach_err w))" by blast
  show "p' = p\<lparr>hups := hups p @ [OnHup operator]\<rparr>" by (rule p)
  show "evt AND EPOLLIN \<noteq> 0" by (rule e)
qed

lemma handler_in_Panicked:
  assumes "handler_in p i operator evt w = (Panicked, t, p')"
  shows "p' = p" and "t = []" and "\<not> i < barriers_len p"
  using assms
  by (simp_all add: handler_in_def Let_def split: if_splits prod.splits option.splits)

lemma handler_in_not_ReturnTrue: "handler_in p i operator evt w \<noteq> (ReturnTrue, t, p')"
  using handler_in_flow [of p i operator evt w] by (auto split: if_splits)

lemma handler_out_flow:
  "fst (handler_out p i operator evt w) \<noteq> ReturnTrue"
  by (simp add: handler_out_def Let_def split: prod.split option.split)

lemma handler_out_Fallthrough:
  assumes "handler_out p i operator evt w = (Fallthrough, t, p')"
  shows "p' = p" and "done_calls t = []" and "do_calls t = []"
    and "list_ex is_go t = False" and "list_ex is_close t = False"
    and "hups_of t = []" and "wait_lens t = []" and "OpcacheFree \<notin> set t"
    and "evt AND EPOLLOUT = 0 \<Longrightarrow> t = []"
    and "Outputs operator = None \<Longrightarrow> OnWrite operator = None \<Longrightarrow> evt AND EPOLLOUT \<noteq> 0 \<Longrightarrow>
           t = [Log (CriticalProblem evt operator)]"
  using assms
  by (simp_all add: handler_out_def Let_def split: if_splits prod.splits option.splits) auto

lemma handler_out_Continue:
  assumes "handler_out p i operator evt w = (Continue, t, p')"
  shows "p' = p\<lparr>hups := hups p @ [OnHup operator]\<rparr>"
    and "done_calls t = [operator]" and "do_calls t = []"
    and "list_ex is_go t = False" and "list_ex is_close t = False"
    and "hups_of t = [OnHup operator]" and "wait_lens t = []" and "OpcacheFree \<notin> set t"
  using assms
  by (simp_all add: handler_out_def Let_def appendHup_eq split: if_splits prod.splits option.splits)
    auto

lemma handler_out_Panicked:
  assumes "handler_out p i operator evt w = (Panicked, t, p')"
  shows "p' = p" and "t = []" and "\<not> i < barriers_len p"
  using assms
  by (simp_all add: handler_out_def Let_def split: if_splits prod.splits option.splits)

lemma is_in_calls:
  "list_all is_in t \<Longrightarrow> done_calls t = [] \<and> do_calls t = [] \<and> \<not> list_ex is_out t
     \<and> \<not> list_ex is_go t \<and> \<not> list_ex is_close t
     \<and> hups_of t = [] \<and> wait_lens t = [] \<and> OpcacheFree \<notin> set t"
proof (induction t)
  case Nil
  then show ?case by simp
next
  case (Cons a t)
  then show ?case by (cases a rule: is_in.cases) simp_all
qed

lemma body_skip:
  "\<not> do_ret w \<Longrightarrow> handler_body p i ev w = (Continue, [CallDo (data ev)], p)"
  by (simp add: handler_body_def)

lemma body_wake:
  assumes "do_ret w" and "FD (data ev) = FD (wop p)"
  shows "handler_body p i ev w =
     (case sys_read (buf p) (read_ret w) of
        [] \<Rightarrow>
          (Panicked, [CallDo (data ev), SysRead (FD (wop p)) (length (buf p)), StoreTrigger 0],
           p\<lparr>buf := [], trigger := 0\<rparr>)
      | b # bs \<Rightarrow>
          if b \<noteq> 0 then
            (ReturnTrue,
             [CallDo (data ev), SysRead (FD (wop p)) (length (buf p)), StoreTrigger 0,
              SysClose (FD (wop p)), SysClose (fd p), CallDone (data ev)],
             p\<lparr>buf := b # bs, trigger := 0\<rparr>)
          else
            (Continue,
             [CallDo (data ev), SysRead (FD (wop p)) (length (buf p)), StoreTrigger 0,
              CallDone (data ev)],
             p\<lparr>buf := b # bs, trigger := 0\<rparr>))"
  using assms by (simp add: handler_body_def Let_def word_greater_zero_iff split: list.split)

lemma body_conn:
  assumes "do_ret w" and "FD (data ev) \<noteq> FD (wop p)"
    and "handler_in p i (data ev) (events ev) w = (f1, t1, p1)"
    and "handler_out p1 i (data ev) (events ev) w = (f2, t2, p2)"
  shows "handler_body p i ev w =
     (if f1 \<noteq> Fallthrough then (f1, CallDo (data ev) # t1, p1)
      else if events ev AND (EPOLLHUP OR EPOLLRDHUP) \<noteq> 0 then
        (Continue, CallDo (data ev) # t1 @ fst (appendHup p1 (data ev) (detach_err w)),
         snd (appendHup p1 (data ev) (detach_err w)))
      else if events ev AND EPOLLERR \<noteq> 0 then
        (if recvmsg_err w \<noteq> Some EAGAIN then
           (Continue,
            CallDo (data ev) # t1 @ SysRecvmsg (FD (data ev)) MSG_ERRQUEUE
              # fst (appendHup p1 (data ev) (detach_err w)),
            snd (appendHup p1 (data ev) (detach_err w)))
         else
           (Continue,
            CallDo (data ev) # t1 @ [SysRecvmsg (FD (data ev)) MSG_ERRQUEUE, CallDone (data ev)], p1))
      else if f2 \<noteq> Fallthrough then (f2, CallDo (data ev) # t1 @ t2, p2)
      else (Continue, CallDo (data ev) # t1 @ t2 @ [CallDone (data ev)], p2))"
  using assms by (simp add: handler_body_def Let_def case_prod_beta)

lemma sys_read_length [simp]: "length (sys_read b d) = length b"
  by (simp add: sys_read_def)

text \<open>What every iteration does.\<close>

lemma handler_body_props:
  assumes b: "handler_body p i ev w = (f, t, p')"
  shows "f = Continue \<or> f = ReturnTrue \<and> do_ret w \<and> FD (data ev) = FD (wop p)
           \<or> f = Panicked \<and> (buf p = [] \<or> \<not> i < barriers_len p)"
    and "f \<noteq> Panicked \<Longrightarrow> do_calls t = [data ev]"
    and "f \<noteq> Panicked \<Longrightarrow> done_calls t = (if do_ret w then [data ev] else [])"
    and "list_ex is_go t = False"
    and "f \<noteq> ReturnTrue \<Longrightarrow> list_ex is_close t = False"
    and "fd p' = fd p \<and> wop p' = wop p \<and> psize p' = psize p \<and> caps p' = caps p
           \<and> events_len p' = events_len p \<and> barriers_len p' = barriers_len p
           \<and> length (buf p') = length (buf p)"
    and "hups p' = hups p @ hups_of t"
    and "wait_lens t = []"
    and "OpcacheFree \<notin> set t"
proof -
  consider (skip) "\<not> do_ret w" | (wake) "do_ret w" "FD (data ev) = FD (wop p)"
    | (conn) "do_ret w" "FD (data ev) \<noteq> FD (wop p)" by blast
  then have "(f = Continue \<or> f = ReturnTrue \<and> do_ret w \<and> FD (data ev) = FD (wop p)
           \<or> f = Panicked \<and> (buf p = [] \<or> \<not> i < barriers_len p))
    \<and> (f \<noteq> Panicked \<longrightarrow> do_calls t = [data ev])
    \<and> (f \<noteq> Panicked \<longrightarrow> done_calls t = (if do_ret w then [data ev] else []))
    \<and> list_ex is_go t = False
    \<and> (f \<noteq> ReturnTrue \<longrightarrow> list_ex is_close t = False)
    \<and> (fd p' = fd p \<and> wop p' = wop p \<and> psize p' = psize p \<and> caps p' = caps p
           \<and> events_len p' = events_len p \<and> barriers_len p' = barriers_len p
           \<and> length (buf p') = length (buf p))
    \<and> hups p' = hups p @ hups_of t \<and> wait_lens t = [] \<and> OpcacheFree \<notin> set t"
  proof cases
    case skip
    with b show ?thesis by (auto simp: body_skip)
  next
    case wake
    have l: "length (sys_read (buf p) (read_ret w)) = length (buf p)" by simp
    show ?thesis
    proof (cases "sys_read (buf p) (read_ret w)")
      case Nil
      with l have "buf p = []" by simp
      with b wake Nil show ?thesis by (auto simp: body_wake)
    next
      case (Cons c cs)
      with l have "length (buf p) = Suc (length cs)" by simp
      with b wake Cons show ?thesis by (auto simp: body_wake split: if_splits)
    qed
  next
    case conn
    obtain f1 t1 p1 where i: "handler_in p i (data ev) (events ev) w = (f1, t1, p1)"
      by (cases "handler_in p i (data ev) (events ev) w") auto
    obtain f2 t2 p2 where out: "handler_out p1 i (data ev) (events ev) w = (f2, t2, p2)"
      by (cases "handler_out p1 i (data ev) (events ev) w") auto
    note eq = b [unfolded body_conn [OF conn i out]]
    show ?thesis
    proof (cases f1)
      case Fallthrough
      note in1 = handler_in_Fallthrough(1,2) [OF i [unfolded Fallthrough]]
      note c1 = is_in_calls [OF in1(2)]
      show ?thesis
      proof (cases f2)
        case Fallthrough
        note o = handler_out_Fallthrough(1-8) [OF out [unfolded Fallthrough]]
        from eq \<open>f1 = Fallthrough\<close> Fallthrough in1 c1 o conn show ?thesis
          by (auto split: if_splits)
      next
        case Continue
        note o = handler_out_Continue [OF out [unfolded Continue]]
        from eq \<open>f1 = Fallthrough\<close> Continue in1 c1 o conn show ?thesis
          by (auto split: if_splits)
      next
        case ReturnTrue
        with handler_out_flow [of p1 i "data ev" "events ev" w] out show ?thesis by simp
      next
        case Panicked
        note o = handler_out_Panicked [OF out [unfolded Panicked]]
        from eq \<open>f1 = Fallthrough\<close> Panicked in1 c1 o conn show ?thesis
          by (auto split: if_splits)
      qed
    next
      case Continue
      note in1 = handler_in_Continue [OF i [unfolded Continue]]
      from in1(2) obtain pre where pre: "list_all is_in pre"
        "t1 = pre @ fst (appendHup p (data ev) (detach_err w))" by blast
      note c1 = is_in_calls [OF pre(1)]
      from eq Continue in1(1) pre(2) c1 conn show ?thesis by auto
    next
      case ReturnTrue
      with i handler_in_not_ReturnTrue show ?thesis by blast
    next
      case Panicked
      note in1 = handler_in_Panicked [OF i [unfolded Panicked]]
      from eq Panicked in1 conn show ?thesis by auto
    qed
  qed
  then show "f = Continue \<or> f = ReturnTrue \<and> do_ret w \<and> FD (data ev) = FD (wop p)
           \<or> f = Panicked \<and> (buf p = [] \<or> \<not> i < barriers_len p)"
    and "f \<noteq> Panicked \<Longrightarrow> do_calls t = [data ev]"
    and "f \<noteq> Panicked \<Longrightarrow> done_calls t = (if do_ret w then [data ev] else [])"
    and "list_ex is_go t = False"
    and "f \<noteq> ReturnTrue \<Longrightarrow> list_ex is_close t = False"
    and "fd p' = fd p \<and> wop p' = wop p \<and> psize p' = psize p \<and> caps p' = caps p
           \<and> events_len p' = events_len p \<and> barriers_len p' = barriers_len p
           \<and> length (buf p') = length (buf p)"
    and "hups p' = hups p @ hups_of t"
    and "wait_lens t = []"
    and "OpcacheFree \<notin> set t"
    by simp_all
qed

section \<open>The loop of the handler\<close>

lemma handler_loop_Cons:
  assumes "handler_body p i (fst e) (snd e) = (fb, tb, pb)"
  shows "handler_loop p i (e # es) =
     (if fb = ReturnTrue then (ReturnTrue, tb, pb)
      else if fb = Panicked then (Panicked, tb, pb)
      else (case handler_loop pb (Suc i) es of (f, t', p'') \<Rightarrow> (f, tb @ t', p'')))"
  using assms by (cases fb) simp_all

lemma handler_loop_all:
  "handler_loop p i evs = (f, t, p') \<Longrightarrow>
     f \<noteq> Continue
     \<and> (f \<noteq> Panicked \<longrightarrow>
          (\<exists>k\<le>length evs.
             do_calls t = map (\<lambda>x. data (fst x)) (take k evs)
             \<and> done_calls t = map (\<lambda>x. data (fst x)) (filter (\<lambda>x. do_ret (snd x)) (take k evs))
             \<and> (f = Fallthrough \<longrightarrow> k = length evs)
             \<and> (f = ReturnTrue \<longrightarrow> 0 < k \<and> do_ret (snd (evs ! (k - 1)))
                   \<and> FD (data (fst (evs ! (k - 1)))) = FD (wop p))))
     \<and> list_ex is_go t = False
     \<and> (f = Fallthrough \<longrightarrow> list_ex is_close t = False)
     \<and> (fd p' = fd p \<and> wop p' = wop p \<and> psize p' = psize p \<and> caps p' = caps p
           \<and> events_len p' = events_len p \<and> barriers_len p' = barriers_len p
           \<and> length (buf p') = length (buf p))
     \<and> hups p' = hups p @ hups_of t
     \<and> wait_lens t = []
     \<and> OpcacheFree \<notin> set t
     \<and> (f = Panicked \<longrightarrow> buf p = [] \<or> barriers_len p < i + length evs)"
proof (induction evs arbitrary: p i f t p')
  case Nil
  then show ?case by auto
next
  case (Cons e es)
  obtain fb tb pb where b: "handler_body p i (fst e) (snd e) = (fb, tb, pb)"
    by (cases "handler_body p i (fst e) (snd e)") auto
  note bp = handler_body_props [OF b]
  note eq = Cons.prems [unfolded handler_loop_Cons [OF b]]
  show ?case
  proof (cases "fb = ReturnTrue")
    case True
    with eq have f: "f = ReturnTrue" and t: "t = tb" and p: "p' = pb" by simp_all
    from True bp(2,3) f t have "do_calls t = map (\<lambda>x. data (fst x)) (take 1 (e # es))
        \<and> done_calls t = map (\<lambda>x. data (fst x)) (filter (\<lambda>x. do_ret (snd x)) (take 1 (e # es)))"
      by auto
    moreover from True bp(1) have "do_ret (snd e) \<and> FD (data (fst e)) = FD (wop p)" by simp
    ultimately have "\<exists>k\<le>length (e # es).
             do_calls t = map (\<lambda>x. data (fst x)) (take k (e # es))
             \<and> done_calls t = map (\<lambda>x. data (fst x)) (filter (\<lambda>x. do_ret (snd x)) (take k (e # es)))
             \<and> (f = Fallthrough \<longrightarrow> k = length (e # es))
             \<and> (f = ReturnTrue \<longrightarrow> 0 < k \<and> do_ret (snd ((e # es) ! (k - 1)))
                   \<and> FD (data (fst ((e # es) ! (k - 1)))) = FD (wop p))"
      using f by (intro exI [of _ 1]) simp
    with f t p bp(4,6,7,8,9) show ?thesis by simp
  next
    case nr: False
    show ?thesis
    proof (cases "fb = Panicked")
      case True
      with eq have f: "f = Panicked" and t: "t = tb" and p: "p' = pb" by simp_all
      from True bp(1) have "buf p = [] \<or> \<not> i < barriers_len p" by simp
      then have "buf p = [] \<or> barriers_len p < i + length (e # es)" by auto
      with f t p bp(4,6,7,8,9) show ?thesis by simp
    next
      case False
      with nr bp(1) have fb: "fb = Continue" by simp
      obtain f2 t2 p2 where r: "handler_loop pb (Suc i) es = (f2, t2, p2)"
        by (cases "handler_loop pb (Suc i) es") auto
      note ih = Cons.IH [OF r]
      from eq fb r have f: "f = f2" and t: "t = tb @ t2" and p: "p' = p2" by simp_all
      from bp(6) have w: "wop pb = wop p" by simp
      have calls: "\<exists>k\<le>length (e # es).
             do_calls t = map (\<lambda>x. data (fst x)) (take k (e # es))
             \<and> done_calls t = map (\<lambda>x. data (fst x)) (filter (\<lambda>x. do_ret (snd x)) (take k (e # es)))
             \<and> (f = Fallthrough \<longrightarrow> k = length (e # es))
             \<and> (f = ReturnTrue \<longrightarrow> 0 < k \<and> do_ret (snd ((e # es) ! (k - 1)))
                   \<and> FD (data (fst ((e # es) ! (k - 1)))) = FD (wop p))"
        if np: "f \<noteq> Panicked"
      proof -
        from np f ih obtain k where k: "k \<le> length es"
          "do_calls t2 = map (\<lambda>x. data (fst x)) (take k es)"
          "done_calls t2 = map (\<lambda>x. data (fst x)) (filter (\<lambda>x. do_ret (snd x)) (take k es))"
          "f2 = Fallthrough \<longrightarrow> k = length es"
          "f2 = ReturnTrue \<longrightarrow> 0 < k \<and> do_ret (snd (es ! (k - 1)))
              \<and> FD (data (fst (es ! (k - 1)))) = FD (wop pb)" by blast
        from fb bp(2,3) k f t w show ?thesis
          by (intro exI [of _ "Suc k"]) (auto simp: nth_Cons split: nat.splits)
      qed
      have pan: "buf p = [] \<or> barriers_len p < i + length (e # es)" if "f = Panicked"
        using that f ih bp(6) by auto
      from ih f t p bp(4,5,6,7,8,9) fb calls pan show ?thesis by auto
    qed
  qed
qed

lemma handler_loop_exit_append:
  "handler_loop p i evs = (ReturnTrue, t, p') \<Longrightarrow>
     handler_loop p i (evs @ rest) = (ReturnTrue, t, p')"
proof (induction evs arbitrary: p i t)
  case Nil
  then show ?case by simp
next
  case (Cons e es)
  obtain fb tb pb where b: "handler_body p i (fst e) (snd e) = (fb, tb, pb)"
    by (cases "handler_body p i (fst e) (snd e)") auto
  obtain f2 t2 p2 where r: "handler_loop pb (Suc i) es = (f2, t2, p2)"
    by (cases "handler_loop pb (Suc i) es") auto
  note eq = Cons.prems [unfolded handler_loop_Cons [OF b]]
  have app: "handler_loop p i ((e # es) @ rest) =
     (if fb = ReturnTrue then (ReturnTrue, tb, pb)
      else if fb = Panicked then (Panicked, tb, pb)
      else (case handler_loop pb (Suc i) (es @ rest) of (f, t', p'') \<Rightarrow> (f, tb @ t', p'')))"
    using handler_loop_Cons [OF b, of "es @ rest"] by simp
  show ?case
  proof (cases "fb = ReturnTrue \<or> fb = Panicked")
    case True
    with eq show ?thesis unfolding app by auto
  next
    case False
    with eq r have "f2 = ReturnTrue" "t = tb @ t2" "p' = p2" by simp_all
    with r Cons.IH [of pb "Suc i" t2] False show ?thesis unfolding app by simp
  qed
qed

lemma handler_eq:
  assumes "handler_loop p 0 evs = (f, t, p')"
  shows "handler p evs =
     (if f = ReturnTrue then (Return True, t, p')
      else if f = Panicked then (Panic, t, p')
      else (Return False, t @ fst (detaches p'), snd (detaches p')))"
  using assms by (cases f) (simp_all add: handler_def case_prod_beta)

lemma detaches_props:
  "list_ex is_close (fst (detaches p)) = False"
  "done_calls (fst (detaches p)) = []" "do_calls (fst (detaches p)) = []"
  "wait_lens (fst (detaches p)) = []" "OpcacheFree \<notin> set (fst (detaches p))"
  "fd (snd (detaches p)) = fd p \<and> wop (snd (detaches p)) = wop p
     \<and> psize (snd (detaches p)) = psize p \<and> caps (snd (detaches p)) = caps p
     \<and> events_len (snd (detaches p)) = events_len p
     \<and> barriers_len (snd (detaches p)) = barriers_len p
     \<and> buf (snd (detaches p)) = buf p"
  by (simp_all add: detaches_def)

lemmas model_defs =
  handler_def handler_body_def handler_in_def handler_out_def appendHup_def Control_def
  detaches_def sys_read_def Let_def
  poll34_def new_poll_def reset_def barriercap_def conn7_def listener5_def bare9_def quiet_def
  trigger_bytes_def close_bytes_def
  EPOLLIN_def EPOLLOUT_def EPOLLERR_def EPOLLHUP_def EPOLLRDHUP_def EPOLLET_def
  EPOLL_CTL_ADD_def EPOLL_CTL_DEL_def EPOLL_CTL_MOD_def EAGAIN_def EINTR_def
  MSG_ERRQUEUE_def

section \<open>done() once per event\<close>

text \<open>
  C1, as stated, fails for a batch in which an event follows the shutdown wake event: the
  handler returns at the wake event, and the event of the listener, whose \<open>do()\<close>
  would return true, gets neither \<open>do()\<close> nor \<open>done()\<close>.
\<close>

theorem shutdown_skips_done_counterexample:
  "handler poll34 shutdown_batch =
     (Return True,
      [CallDo (wop poll34), SysRead 4 8, StoreTrigger 0, SysClose 4, SysClose 3,
       CallDone (wop poll34)],
      poll34\<lparr>buf := close_bytes, trigger := 0\<rparr>)
   \<and> do_ret (snd (shutdown_batch ! 1))
   \<and> data (fst (shutdown_batch ! 1)) = listener5
   \<and> listener5 \<notin> set (done_calls (fst (snd (handler poll34 shutdown_batch))))
   \<and> listener5 \<notin> set (do_calls (fst (snd (handler poll34 shutdown_batch))))"
  by (simp add: shutdown_batch_def model_defs)

text \<open>
  C1, amended.  A handler that does not panic handles a prefix of the batch, in order:
  \<open>do()\<close> is called once for each event of the prefix, and \<open>done()\<close> is called
  exactly once for each of these events whose \<open>do()\<close> returned true, on the operator
  in the data field of the event, and not at all for the others.  The prefix is the whole
  batch when the handler returns false.  When it returns true the prefix ends with an
  event of the wake descriptor that passed \<open>do()\<close>, and the events after it get
  neither call.
\<close>

theorem handler_done_once:
  assumes "handler p evs = (r, t, p')" and "r \<noteq> Panic"
  shows "\<exists>k\<le>length evs.
     do_calls t = map (\<lambda>x. data (fst x)) (take k evs)
     \<and> done_calls t = map (\<lambda>x. data (fst x)) (filter (\<lambda>x. do_ret (snd x)) (take k evs))
     \<and> (r = Return False \<longrightarrow> k = length evs)
     \<and> (r = Return True \<longrightarrow> 0 < k \<and> do_ret (snd (evs ! (k - 1)))
           \<and> FD (data (fst (evs ! (k - 1)))) = FD (wop p))"
proof -
  obtain f tl pl where l: "handler_loop p 0 evs = (f, tl, pl)"
    by (cases "handler_loop p 0 evs") auto
  note a = handler_loop_all [OF l]
  note h = assms(1) [unfolded handler_eq [OF l]]
  from h assms(2) have np: "f \<noteq> Panicked" by (auto split: if_splits)
  with a obtain k where k: "k \<le> length evs"
    "do_calls tl = map (\<lambda>x. data (fst x)) (take k evs)"
    "done_calls tl = map (\<lambda>x. data (fst x)) (filter (\<lambda>x. do_ret (snd x)) (take k evs))"
    "f = Fallthrough \<longrightarrow> k = length evs"
    "f = ReturnTrue \<longrightarrow> 0 < k \<and> do_ret (snd (evs ! (k - 1)))
           \<and> FD (data (fst (evs ! (k - 1)))) = FD (wop p)" by blast
  from a have nc: "f \<noteq> Continue" by simp
  show ?thesis
  proof (cases "f = ReturnTrue")
    case True
    with h k show ?thesis by (intro exI [of _ k]) auto
  next
    case False
    with np nc have "f = Fallthrough" by (cases f) simp_all
    with h k show ?thesis by (intro exI [of _ k]) (auto simp: detaches_props)
  qed
qed

theorem handler_done_once_witness:
  "fst (handler poll34 mixed_batch) = Return False
   \<and> do_calls (fst (snd (handler poll34 mixed_batch))) = [conn7, wop poll34, bare9]
   \<and> done_calls (fst (snd (handler poll34 mixed_batch))) = [conn7, wop poll34]"
proof -
  have r: "fst (handler poll34 mixed_batch) = Return False"
    by (simp add: mixed_batch_def model_defs)
  then have "handler poll34 mixed_batch =
      (Return False, fst (snd (handler poll34 mixed_batch)), snd (snd (handler poll34 mixed_batch)))"
    by (metis prod.collapse)
  from handler_done_once [OF this] obtain k where
    "do_calls (fst (snd (handler poll34 mixed_batch))) = map (\<lambda>x. data (fst x)) (take k mixed_batch)"
    "done_calls (fst (snd (handler poll34 mixed_batch))) =
       map (\<lambda>x. data (fst x)) (filter (\<lambda>x. do_ret (snd x)) (take k mixed_batch))"
    "k = length mixed_batch" by auto
  with r show ?thesis by (simp add: mixed_batch_def quiet_def)
qed

section \<open>Missing callbacks\<close>

text \<open>
  C2, as stated, fails: for an operator without callbacks, an IN event and an OUT event
  are logged, and \<open>done()\<close> is called all the same.
\<close>

theorem missing_callbacks_counterexample:
  "OnRead bare9 = None \<and> Inputs bare9 = None
   \<and> handler poll34 [(\<lparr>events = EPOLLIN, data = bare9\<rparr>, quiet [])] =
       (Return False,
        [CallDo bare9, Log (CriticalProblem EPOLLIN bare9), CallDone bare9], poll34)
   \<and> OnWrite bare9 = None \<and> Outputs bare9 = None
   \<and> handler poll34 [(\<lparr>events = EPOLLOUT, data = bare9\<rparr>, quiet [])] =
       (Return False,
        [CallDo bare9, Log (CriticalProblem EPOLLOUT bare9), CallDone bare9], poll34)"
  by (simp add: model_defs)

text \<open>
  C2, amended.  For an event that passed \<open>do()\<close>, on an operator other than the wake
  operator, in an iteration that does not panic: when the IN bit is set and the operator
  has neither \<open>OnRead\<close> nor \<open>Inputs\<close>, the handler logs the problem first and goes on
  with the rest of the iteration; when the OUT bit is set, the operator has neither
  \<open>OnWrite\<close> nor \<open>Outputs\<close>, and the iteration reaches the OUT statement (no HUP,
  RDHUP or ERR bit, no failed \<open>readv\<close>), the handler logs the problem after the read
  side.  In both cases \<open>done()\<close> is called exactly once and the loop goes on with the
  next event.
\<close>

theorem missing_callbacks_logged:
  assumes "handler_body p i ev w = (f, t, p')" and "do_ret w"
    and "FD (data ev) \<noteq> FD (wop p)" and "f \<noteq> Panicked"
  shows "(events ev AND EPOLLIN \<noteq> 0 \<and> OnRead (data ev) = None \<and> Inputs (data ev) = None
           \<longrightarrow> (\<exists>rest. t = CallDo (data ev) # Log (CriticalProblem (events ev) (data ev)) # rest)
               \<and> done_calls t = [data ev] \<and> f = Continue)
       \<and> (events ev AND EPOLLOUT \<noteq> 0 \<and> OnWrite (data ev) = None \<and> Outputs (data ev) = None
            \<and> events ev AND (EPOLLHUP OR EPOLLRDHUP) = 0 \<and> events ev AND EPOLLERR = 0
            \<and> \<not> (readv_called ev w \<and> readv_failed w)
           \<longrightarrow> (\<exists>pre. list_all is_in pre
                 \<and> t = CallDo (data ev) # pre
                     @ [Log (CriticalProblem (events ev) (data ev)), CallDone (data ev)])
               \<and> done_calls t = [data ev] \<and> f = Continue)"
proof -
  obtain f1 t1 p1 where i: "handler_in p i (data ev) (events ev) w = (f1, t1, p1)"
    by (cases "handler_in p i (data ev) (events ev) w") auto
  obtain f2 t2 p2 where out: "handler_out p1 i (data ev) (events ev) w = (f2, t2, p2)"
    by (cases "handler_out p1 i (data ev) (events ev) w") auto
  note eq = assms(1) [unfolded body_conn [OF assms(2,3) i out]]
  note bp = handler_body_props [OF assms(1)]
  from bp(1,3) assms(2,3,4) have dn: "done_calls t = [data ev]" and fc: "f = Continue"
    by auto
  have "\<exists>rest. t = CallDo (data ev) # Log (CriticalProblem (events ev) (data ev)) # rest"
    if c: "events ev AND EPOLLIN \<noteq> 0" "OnRead (data ev) = None" "Inputs (data ev) = None"
  proof -
    from c handler_in_flow [of p i "data ev" "events ev" w] i have f1: "f1 = Fallthrough"
      by simp
    from handler_in_Fallthrough(4) [OF i [unfolded f1] c(3,2,1)]
    have "t1 = [Log (CriticalProblem (events ev) (data ev))]" .
    with eq f1 show ?thesis by (auto split: if_splits)
  qed
  moreover have "\<exists>pre. list_all is_in pre
      \<and> t = CallDo (data ev) # pre
          @ [Log (CriticalProblem (events ev) (data ev)), CallDone (data ev)]"
    if c: "events ev AND EPOLLOUT \<noteq> 0" "OnWrite (data ev) = None" "Outputs (data ev) = None"
      "events ev AND (EPOLLHUP OR EPOLLRDHUP) = 0" "events ev AND EPOLLERR = 0"
      "\<not> (readv_called ev w \<and> readv_failed w)"
  proof -
    from c(6) handler_in_flow [of p i "data ev" "events ev" w] i assms(4) eq
    have f1: "f1 = Fallthrough"
      by (auto simp: readv_called_def split: if_splits)
    note in1 = handler_in_Fallthrough(1,2) [OF i [unfolded f1]]
    from c(2,3) out have f2: "f2 = Fallthrough" by (auto simp: handler_out_def split: if_splits)
    from handler_out_Fallthrough(10) [OF out [unfolded f2] c(3,2,1)]
    have "t2 = [Log (CriticalProblem (events ev) (data ev))]" .
    with eq f1 f2 c(4,5) in1 show ?thesis by auto
  qed
  ultimately show ?thesis using dn fc by blast
qed

theorem missing_callbacks_logged_witness:
  "handler_body poll34 0 \<lparr>events = EPOLLIN OR EPOLLOUT, data = bare9\<rparr> (quiet []) =
     (Continue,
      [CallDo bare9, Log (CriticalProblem (EPOLLIN OR EPOLLOUT) bare9),
       Log (CriticalProblem (EPOLLIN OR EPOLLOUT) bare9), CallDone bare9], poll34)
   \<and> done_calls (fst (snd (handler_body poll34 0
        \<lparr>events = EPOLLIN OR EPOLLOUT, data = bare9\<rparr> (quiet [])))) = [bare9]"
proof -
  have b: "handler_body poll34 0 \<lparr>events = EPOLLIN OR EPOLLOUT, data = bare9\<rparr> (quiet []) =
     (Continue,
      [CallDo bare9, Log (CriticalProblem (EPOLLIN OR EPOLLOUT) bare9),
       Log (CriticalProblem (EPOLLIN OR EPOLLOUT) bare9), CallDone bare9], poll34)"
    by (simp add: model_defs)
  have "do_ret (quiet [])" by (simp add: quiet_def)
  moreover have "FD (data \<lparr>events = EPOLLIN OR EPOLLOUT, data = bare9\<rparr>) \<noteq> FD (wop poll34)"
    by (simp add: model_defs)
  moreover have "events \<lparr>events = EPOLLIN OR EPOLLOUT, data = bare9\<rparr> AND EPOLLIN \<noteq> 0
      \<and> OnRead (data \<lparr>events = EPOLLIN OR EPOLLOUT, data = bare9\<rparr>) = None
      \<and> Inputs (data \<lparr>events = EPOLLIN OR EPOLLOUT, data = bare9\<rparr>) = None"
    by (simp add: model_defs)
  ultimately show ?thesis
    using missing_callbacks_logged [OF b] b by simp
qed

section \<open>Hang-up and error events\<close>

text \<open>
  C8, as stated, fails for an event that does not pass \<open>do()\<close>, and for an event that
  follows the shutdown wake event in its batch.  For the event of the connection with
  the IN and the RDHUP bit: when \<open>do()\<close> returns false the handler calls nothing but
  \<open>do()\<close>; after the shutdown wake event the handler has returned and calls nothing
  for it.  In both batches \<open>OnHup\<close> is not recorded and \<open>Control(PollDetach)\<close> is not
  called.
\<close>

theorem hangup_not_dispatched_counterexample:
  "events \<lparr>events = EPOLLIN OR EPOLLRDHUP, data = conn7\<rparr> AND (EPOLLHUP OR EPOLLRDHUP) \<noteq> 0
   \<and> FD conn7 \<noteq> FD (wop poll34)
   \<and> handler poll34
        [(\<lparr>events = EPOLLIN OR EPOLLRDHUP, data = conn7\<rparr>, (quiet [])\<lparr>do_ret := False\<rparr>)] =
       (Return False, [CallDo conn7], poll34)
   \<and> hups poll34 = []
   \<and> handler poll34
        [(\<lparr>events = EPOLLIN, data = wop poll34\<rparr>, quiet close_bytes),
         (\<lparr>events = EPOLLIN OR EPOLLRDHUP, data = conn7\<rparr>, quiet [])] =
       (Return True,
        [CallDo (wop poll34), SysRead 4 8, StoreTrigger 0, SysClose 4, SysClose 3,
         CallDone (wop poll34)],
        poll34\<lparr>buf := close_bytes\<rparr>)
   \<and> hups (poll34\<lparr>buf := close_bytes\<rparr>) = []"
  by (simp add: model_defs)

text \<open>
  C8, amended.  In the iteration of the loop for an event that passed \<open>do()\<close> (the
  handler called \<open>do()\<close> for it and the result was true), on an operator other than
  the wake operator, with the HUP or the RDHUP bit set, when the iteration does not panic
  (the slot is within the barrier array): the calls are \<open>do()\<close>, then the calls of the
  read side (none exactly when the IN bit is not set), then the hang-up: \<open>OnHup\<close> is
  appended to \<open>hups\<close>, \<open>Control(PollDetach)\<close> is called on the operator, a failure
  of it is logged, \<open>done()\<close> is called.  The loop goes on with the next event and none
  of the calls of the write side is made, whatever the OUT bit.
\<close>

theorem hangup_skips_out:
  assumes "handler_body p i ev w = (f, t, p')" and "do_ret w"
    and "FD (data ev) \<noteq> FD (wop p)" and "f \<noteq> Panicked"
    and "events ev AND (EPOLLHUP OR EPOLLRDHUP) \<noteq> 0"
  shows "f = Continue
    \<and> p' = p\<lparr>hups := hups p @ [OnHup (data ev)]\<rparr>
    \<and> \<not> list_ex is_out t
    \<and> (\<exists>pre. list_all is_in pre \<and> (pre = [] \<longleftrightarrow> events ev AND EPOLLIN = 0)
          \<and> t = CallDo (data ev) # pre
              @ CallControl (data ev) PollDetach
              # (case detach_err w of None \<Rightarrow> [] | Some e \<Rightarrow> [Log (DetachFailed e)])
              @ [CallDone (data ev)])"
proof -
  obtain f1 t1 p1 where i: "handler_in p i (data ev) (events ev) w = (f1, t1, p1)"
    by (cases "handler_in p i (data ev) (events ev) w") auto
  obtain f2 t2 p2 where out: "handler_out p1 i (data ev) (events ev) w = (f2, t2, p2)"
    by (cases "handler_out p1 i (data ev) (events ev) w") auto
  note eq = assms(1) [unfolded body_conn [OF assms(2,3) i out]]
  have hup: "fst (appendHup p (data ev) (detach_err w)) =
      CallControl (data ev) PollDetach
        # (case detach_err w of None \<Rightarrow> [] | Some e \<Rightarrow> [Log (DetachFailed e)])
        @ [CallDone (data ev)]"
    by (simp add: appendHup_eq)
  show ?thesis
  proof (cases f1)
    case Fallthrough
    note in1 = handler_in_Fallthrough(1,2,3) [OF i [unfolded Fallthrough]]
    note c1 = is_in_calls [OF in1(2)]
    from eq Fallthrough assms(5) in1(1)
    have "f = Continue" "p' = p\<lparr>hups := hups p @ [OnHup (data ev)]\<rparr>"
      "t = CallDo (data ev) # t1 @ fst (appendHup p (data ev) (detach_err w))"
      by simp_all
    with in1(2,3) c1 show ?thesis unfolding hup [symmetric] by auto
  next
    case Continue
    note in1 = handler_in_Continue [OF i [unfolded Continue]]
    from in1(2) obtain pre where pre: "list_all is_in pre" "pre \<noteq> []"
      "t1 = pre @ fst (appendHup p (data ev) (detach_err w))" by blast
    note c1 = is_in_calls [OF pre(1)]
    from eq Continue in1(1) pre(3)
    have "f = Continue" "p' = p\<lparr>hups := hups p @ [OnHup (data ev)]\<rparr>"
      "t = CallDo (data ev) # pre @ fst (appendHup p (data ev) (detach_err w))"
      by simp_all
    with pre(1,2) in1(3) c1 show ?thesis unfolding hup [symmetric] by auto
  next
    case ReturnTrue
    with i handler_in_not_ReturnTrue show ?thesis by blast
  next
    case Panicked
    with eq assms(4) show ?thesis by simp
  qed
qed

theorem hangup_skips_out_witness:
  "handler_body poll34 0 \<lparr>events = EPOLLIN OR EPOLLOUT OR EPOLLRDHUP, data = conn7\<rparr> (quiet []) =
     (Continue,
      [CallDo conn7, CallInputs conn7 0, SysReadv 7 0, CallInputAck conn7 6,
       CallControl conn7 PollDetach, CallDone conn7],
      poll34\<lparr>hups := [Some 70]\<rparr>)"
proof -
  have b: "handler_body poll34 0
      \<lparr>events = EPOLLIN OR EPOLLOUT OR EPOLLRDHUP, data = conn7\<rparr> (quiet []) =
     (Continue,
      [CallDo conn7, CallInputs conn7 0, SysReadv 7 0, CallInputAck conn7 6,
       CallControl conn7 PollDetach, CallDone conn7],
      poll34\<lparr>hups := [Some 70]\<rparr>)"
    by (simp add: model_defs)
  have "do_ret (quiet [])" by (simp add: quiet_def)
  moreover have "FD (data \<lparr>events = EPOLLIN OR EPOLLOUT OR EPOLLRDHUP, data = conn7\<rparr>)
      \<noteq> FD (wop poll34)"
    by (simp add: model_defs)
  moreover have "events \<lparr>events = EPOLLIN OR EPOLLOUT OR EPOLLRDHUP, data = conn7\<rparr>
      AND (EPOLLHUP OR EPOLLRDHUP) \<noteq> 0"
    by (simp add: model_defs)
  moreover have "Continue \<noteq> Panicked" by simp
  ultimately show ?thesis
    using hangup_skips_out [OF b] b by simp
qed

text \<open>
  C9, as stated, fails in three cases.  For an event with the IN and the ERR bit whose
  \<open>readv\<close> fails (here with errno 104), the handler hangs the operator up and
  continues before the ERR test, so \<open>recvmsg\<close> is not called, although it would
  return \<open>EAGAIN\<close>.  For an event with the ERR bit that does not pass \<open>do()\<close> the
  handler calls nothing but \<open>do()\<close>, and for one that follows the shutdown wake event
  in its batch it calls nothing: no probe, and no \<open>done()\<close>.
\<close>

theorem err_without_probe_counterexample:
  "events \<lparr>events = EPOLLIN OR EPOLLERR, data = conn7\<rparr> AND EPOLLERR \<noteq> 0
   \<and> events \<lparr>events = EPOLLIN OR EPOLLERR, data = conn7\<rparr> AND (EPOLLHUP OR EPOLLRDHUP) = 0
   \<and> FD conn7 \<noteq> FD (wop poll34)
   \<and> recvmsg_err ((quiet [])\<lparr>readv_ret := (- 1, Some 104)\<rparr>) = Some EAGAIN
   \<and> handler_body poll34 0 \<lparr>events = EPOLLIN OR EPOLLERR, data = conn7\<rparr>
        ((quiet [])\<lparr>readv_ret := (- 1, Some 104)\<rparr>) =
     (Continue,
      [CallDo conn7, CallInputs conn7 0, SysReadv 7 0, CallInputAck conn7 (- 1),
       Log (ReadvFailed 7 104),
       CallControl conn7 PollDetach, CallDone conn7],
      poll34\<lparr>hups := [Some 70]\<rparr>)
   \<and> events \<lparr>events = EPOLLERR, data = conn7\<rparr> AND EPOLLERR \<noteq> 0
   \<and> events \<lparr>events = EPOLLERR, data = conn7\<rparr> AND (EPOLLHUP OR EPOLLRDHUP) = 0
   \<and> handler poll34 [(\<lparr>events = EPOLLERR, data = conn7\<rparr>, (quiet [])\<lparr>do_ret := False\<rparr>)] =
       (Return False, [CallDo conn7], poll34)
   \<and> handler poll34
        [(\<lparr>events = EPOLLIN, data = wop poll34\<rparr>, quiet close_bytes),
         (\<lparr>events = EPOLLERR, data = conn7\<rparr>, quiet [])] =
       (Return True,
        [CallDo (wop poll34), SysRead 4 8, StoreTrigger 0, SysClose 4, SysClose 3,
         CallDone (wop poll34)],
        poll34\<lparr>buf := close_bytes\<rparr>)"
  by (simp add: model_defs)

text \<open>
  C9, amended.  In the iteration of the loop for an event that passed \<open>do()\<close> (the
  handler called \<open>do()\<close> for it and the result was true), on an operator other than
  the wake operator, without HUP and RDHUP bit, with the ERR bit set, whose read side did
  not end in a failed \<open>readv\<close>, when the iteration does not panic: after the calls of
  the read side the handler calls \<open>recvmsg\<close> on the descriptor with the flag
  \<open>MSG_ERRQUEUE\<close>.  When the result is \<open>EAGAIN\<close> it calls \<open>done()\<close> and
  \<open>hups\<close> is unchanged; for any other result (also nil) it hangs the operator up.  In
  both cases the loop goes on with the next event and none of the calls of the write side
  is made.
\<close>

theorem err_probe:
  assumes "handler_body p i ev w = (f, t, p')" and "do_ret w"
    and "FD (data ev) \<noteq> FD (wop p)" and "f \<noteq> Panicked"
    and "events ev AND (EPOLLHUP OR EPOLLRDHUP) = 0"
    and "events ev AND EPOLLERR \<noteq> 0"
    and "\<not> (readv_called ev w \<and> readv_failed w)"
  shows "f = Continue
    \<and> \<not> list_ex is_out t
    \<and> p' = (if recvmsg_err w = Some EAGAIN then p else p\<lparr>hups := hups p @ [OnHup (data ev)]\<rparr>)
    \<and> (\<exists>pre. list_all is_in pre
          \<and> t = CallDo (data ev) # pre @ SysRecvmsg (FD (data ev)) MSG_ERRQUEUE
              # (if recvmsg_err w = Some EAGAIN then [CallDone (data ev)]
                 else CallControl (data ev) PollDetach
                      # (case detach_err w of None \<Rightarrow> [] | Some e \<Rightarrow> [Log (DetachFailed e)])
                      @ [CallDone (data ev)]))"
proof -
  obtain f1 t1 p1 where i: "handler_in p i (data ev) (events ev) w = (f1, t1, p1)"
    by (cases "handler_in p i (data ev) (events ev) w") auto
  obtain f2 t2 p2 where out: "handler_out p1 i (data ev) (events ev) w = (f2, t2, p2)"
    by (cases "handler_out p1 i (data ev) (events ev) w") auto
  note eq = assms(1) [unfolded body_conn [OF assms(2,3) i out]]
  have hup: "fst (appendHup p (data ev) (detach_err w)) =
      CallControl (data ev) PollDetach
        # (case detach_err w of None \<Rightarrow> [] | Some e \<Rightarrow> [Log (DetachFailed e)])
        @ [CallDone (data ev)]"
    by (simp add: appendHup_eq)
  from assms(7) handler_in_flow [of p i "data ev" "events ev" w] i assms(4) eq
  have f1: "f1 = Fallthrough"
    by (auto simp: readv_called_def split: if_splits)
  note in1 = handler_in_Fallthrough(1,2) [OF i [unfolded f1]]
  note c1 = is_in_calls [OF in1(2)]
  from eq f1 assms(5,6) in1(1)
  have "f = Continue"
    "p' = (if recvmsg_err w = Some EAGAIN then p else p\<lparr>hups := hups p @ [OnHup (data ev)]\<rparr>)"
    "t = CallDo (data ev) # t1 @ SysRecvmsg (FD (data ev)) MSG_ERRQUEUE
              # (if recvmsg_err w = Some EAGAIN then [CallDone (data ev)]
                 else fst (appendHup p (data ev) (detach_err w)))"
    by (simp_all split: if_splits)
  with in1(2) c1 show ?thesis unfolding hup [symmetric] by auto
qed

theorem err_probe_witness:
  "handler_body poll34 0 \<lparr>events = EPOLLOUT OR EPOLLERR, data = conn7\<rparr> (quiet []) =
     (Continue, [CallDo conn7, SysRecvmsg 7 MSG_ERRQUEUE, CallDone conn7], poll34)
   \<and> handler_body poll34 0 \<lparr>events = EPOLLOUT OR EPOLLERR, data = conn7\<rparr>
        ((quiet [])\<lparr>recvmsg_err := None\<rparr>) =
     (Continue,
      [CallDo conn7, SysRecvmsg 7 MSG_ERRQUEUE,
       CallControl conn7 PollDetach, CallDone conn7],
      poll34\<lparr>hups := [Some 70]\<rparr>)"
proof -
  have b: "handler_body poll34 0 \<lparr>events = EPOLLOUT OR EPOLLERR, data = conn7\<rparr> (quiet []) =
     (Continue, [CallDo conn7, SysRecvmsg 7 MSG_ERRQUEUE, CallDone conn7], poll34)"
    by (simp add: model_defs)
  have b2: "handler_body poll34 0 \<lparr>events = EPOLLOUT OR EPOLLERR, data = conn7\<rparr>
        ((quiet [])\<lparr>recvmsg_err := None\<rparr>) =
     (Continue,
      [CallDo conn7, SysRecvmsg 7 MSG_ERRQUEUE,
       CallControl conn7 PollDetach, CallDone conn7],
      poll34\<lparr>hups := [Some 70]\<rparr>)"
    by (simp add: model_defs)
  have h: "do_ret (quiet [])"
    "FD (data \<lparr>events = EPOLLOUT OR EPOLLERR, data = conn7\<rparr>) \<noteq> FD (wop poll34)"
    "Continue \<noteq> Panicked"
    "events \<lparr>events = EPOLLOUT OR EPOLLERR, data = conn7\<rparr> AND (EPOLLHUP OR EPOLLRDHUP) = 0"
    "events \<lparr>events = EPOLLOUT OR EPOLLERR, data = conn7\<rparr> AND EPOLLERR \<noteq> 0"
    "\<not> (readv_called \<lparr>events = EPOLLOUT OR EPOLLERR, data = conn7\<rparr> (quiet [])
        \<and> readv_failed (quiet []))"
    by (simp_all add: model_defs readv_called_def readv_failed_def)
  from err_probe [OF b h] b b2 show ?thesis by simp
qed

section \<open>The loop of Wait\<close>

lemma body_ReturnTrue:
  assumes "handler_body p i ev w = (ReturnTrue, t, p')"
  shows "t = [CallDo (data ev), SysRead (FD (wop p)) (length (buf p)), StoreTrigger 0,
              SysClose (FD (wop p)), SysClose (fd p), CallDone (data ev)]"
proof -
  from handler_body_props(1) [OF assms] have c: "do_ret w" "FD (data ev) = FD (wop p)"
    by simp_all
  from assms [unfolded body_wake [OF c]] show ?thesis
    by (auto split: list.splits if_splits)
qed

lemma handler_loop_exit_tail:
  "handler_loop p i evs = (ReturnTrue, t, p') \<Longrightarrow>
     \<exists>t0 operator. t = t0 @ [SysClose (FD (wop p)), SysClose (fd p), CallDone operator]"
proof (induction evs arbitrary: p i t p')
  case Nil
  then show ?case by simp
next
  case (Cons e es)
  obtain fb tb pb where b: "handler_body p i (fst e) (snd e) = (fb, tb, pb)"
    by (cases "handler_body p i (fst e) (snd e)") auto
  note eq = Cons.prems [unfolded handler_loop_Cons [OF b]]
  show ?case
  proof (cases "fb = ReturnTrue")
    case True
    with eq b have "handler_body p i (fst e) (snd e) = (ReturnTrue, t, p')" by simp
    from body_ReturnTrue [OF this] show ?thesis by simp
  next
    case False
    obtain f2 t2 p2 where r: "handler_loop pb (Suc i) es = (f2, t2, p2)"
      by (cases "handler_loop pb (Suc i) es") auto
    from eq False r have f2: "f2 = ReturnTrue" and t: "t = tb @ t2"
      by (auto split: if_splits)
    from handler_body_props(6) [OF b] have "fd pb = fd p" "wop pb = wop p" by simp_all
    with Cons.IH [OF r [unfolded f2]] t show ?thesis by auto
  qed
qed

lemma handler_props:
  assumes "handler p evs = (r, t, p')"
  shows "fd p' = fd p \<and> wop p' = wop p \<and> psize p' = psize p \<and> caps p' = caps p
           \<and> events_len p' = events_len p \<and> barriers_len p' = barriers_len p
           \<and> length (buf p') = length (buf p)"
    and "wait_lens t = []"
    and "r \<noteq> Running"
    and "r = Return True \<Longrightarrow> OpcacheFree \<notin> set t \<and> \<not> list_ex is_go t
           \<and> hups p' = hups p @ hups_of t
           \<and> (\<exists>t0 operator. t = t0 @ [SysClose (FD (wop p)), SysClose (fd p), CallDone operator])"
    and "r = Panic \<Longrightarrow> buf p = [] \<or> barriers_len p < length evs"
proof -
  obtain f tl pl where l: "handler_loop p 0 evs = (f, tl, pl)"
    by (cases "handler_loop p 0 evs") auto
  note a = handler_loop_all [OF l]
  note h = assms [unfolded handler_eq [OF l]]
  from h a show "fd p' = fd p \<and> wop p' = wop p \<and> psize p' = psize p \<and> caps p' = caps p
           \<and> events_len p' = events_len p \<and> barriers_len p' = barriers_len p
           \<and> length (buf p') = length (buf p)"
    by (auto simp: detaches_props split: if_splits)
  from h a show "wait_lens t = []" by (auto simp: detaches_props split: if_splits)
  from h show "r \<noteq> Running" by (auto split: if_splits)
  show "OpcacheFree \<notin> set t \<and> \<not> list_ex is_go t \<and> hups p' = hups p @ hups_of t
      \<and> (\<exists>t0 operator. t = t0 @ [SysClose (FD (wop p)), SysClose (fd p), CallDone operator])"
    if "r = Return True"
  proof -
    from that h have "f = ReturnTrue" "t = tl" "p' = pl" by (auto split: if_splits)
    with a handler_loop_exit_tail [of p 0 evs tl pl] l show ?thesis by simp
  qed
  show "buf p = [] \<or> barriers_len p < length evs" if "r = Panic"
  proof -
    from that h have "f = Panicked" by (auto split: if_splits)
    with a show ?thesis by simp
  qed
qed

lemma Wait_grow_frame [simp]:
  "fd (Wait_grow p n) = fd p" "wop (Wait_grow p n) = wop p" "buf (Wait_grow p n) = buf p"
  "hups (Wait_grow p n) = hups p"
  by (simp_all add: Wait_grow_def reset_def)

lemma Wait_loop_closed:
  assumes "handler (Wait_grow p n) (map (ret_events r) [0..<nat (ret_n r)]) = (Return True, th, p2)"
    and "ret_err r = None \<or> ret_err r = Some EINTR" and "0 < ret_n r"
    and "ret_n r \<le> int (events_len (Wait_grow p n))"
  shows "Wait_loop p n msec (r # rs) =
     (Return None,
      SysEpollWait (fd p) (events_len (Wait_grow p n)) msec # th, p2)"
  using assms by (auto simp: Let_def)

lemma Wait_loop_exits:
  "Wait_loop p n msec rs = (res, t, p') \<Longrightarrow>
     (\<forall>e. res = Return (Some e) \<longrightarrow> e \<noteq> EINTR \<and> (\<exists>r\<in>set rs. ret_err r = Some e))
     \<and> (res = Return None \<longrightarrow>
          (\<exists>t0 operator. t = t0 @ [SysClose (FD (wop p)), SysClose (fd p), CallDone operator]))
     \<and> fd p' = fd p \<and> wop p' = wop p"
proof (induction rs arbitrary: p n msec res t p')
  case Nil
  then show ?case by simp
next
  case (Cons r rs)
  let ?p1 = "Wait_grow p n"
  let ?t1 = "SysEpollWait (fd p) (events_len ?p1) msec"
  show ?case
  proof (cases "ret_err r \<noteq> None \<and> ret_err r \<noteq> Some EINTR")
    case True
    with Cons.prems show ?thesis by (auto simp: Let_def)
  next
    case ok: False
    show ?thesis
    proof (cases "ret_n r \<le> 0")
      case True
      obtain res2 t2 p2 where r2: "Wait_loop ?p1 (ret_n r) (- 1) rs = (res2, t2, p2)"
        by (cases "Wait_loop ?p1 (ret_n r) (- 1) rs") auto
      from Cons.prems ok True r2 have "res = res2" "t = ?t1 # Gosched # t2" "p' = p2"
        by (auto simp: Let_def)
      with Cons.IH [OF r2] show ?thesis by auto
    next
      case pos: False
      show ?thesis
      proof (cases "int (events_len ?p1) < ret_n r")
        case True
        with Cons.prems ok pos show ?thesis by (auto simp: Let_def)
      next
        case False
        obtain rh th ph where h:
          "handler ?p1 (map (ret_events r) [0..<nat (ret_n r)]) = (rh, th, ph)"
          by (cases "handler ?p1 (map (ret_events r) [0..<nat (ret_n r)])") auto
        note hp = handler_props [OF h]
        show ?thesis
        proof (cases rh)
          case (Return b)
          show ?thesis
          proof (cases b)
            case True
            with Cons.prems ok pos False h Return
            have "res = Return None" "t = ?t1 # th" "p' = ph" by (auto simp: Let_def)
            moreover from hp(4) Return True obtain t0 operator where
              "th = t0 @ [SysClose (FD (wop p)), SysClose (fd p), CallDone operator]"
              by auto
            ultimately show ?thesis using hp(1) by auto
          next
            case nb: False
            obtain res2 t2 p2 where r2: "Wait_loop ph (ret_n r) 0 rs = (res2, t2, p2)"
              by (cases "Wait_loop ph (ret_n r) 0 rs") auto
            from Cons.prems ok pos False h Return nb r2
            have "res = res2" "t = ?t1 # th @ OpcacheFree # t2" "p' = p2"
              by (auto simp: Let_def)
            with Cons.IH [OF r2] hp(1) show ?thesis by auto
          qed
        next
          case Panic
          with Cons.prems ok pos False h hp(1) show ?thesis by (auto simp: Let_def)
        next
          case Running
          with hp(3) show ?thesis by simp
        qed
      qed
    qed
  qed
qed

text \<open>The handler does not panic on the batches \<open>Wait\<close> passes to it.\<close>

lemma handler_no_panic:
  assumes "buf p \<noteq> []" and "length evs \<le> barriers_len p"
  shows "fst (handler p evs) \<noteq> Panic"
proof
  assume "fst (handler p evs) = Panic"
  then have "handler p evs = (Panic, fst (snd (handler p evs)), snd (snd (handler p evs)))"
    by (metis prod.collapse)
  from handler_props(5) [OF this] assms show False by simp
qed

section \<open>The size of the event array\<close>

lemma doubling_step:
  assumes "\<exists>k\<le>10. s = 128 * 2 ^ k"
  shows "\<exists>k\<le>10. (if n = int s \<and> s < 128 * 1024 then 2 * s else s) = 128 * 2 ^ k"
proof -
  from assms obtain k :: nat where k: "k \<le> 10" "s = 128 * 2 ^ k" by blast
  show ?thesis
  proof (cases "n = int s \<and> s < 128 * 1024")
    case True
    with k have "(2 :: nat) ^ k < 2 ^ 10" by simp
    then have "k < 10" by (simp only: power_strict_increasing_iff) 
    with k True have "Suc k \<le> 10 \<and> (if n = int s \<and> s < 128 * 1024 then 2 * s else s) = 128 * 2 ^ Suc k"
      by simp
    then show ?thesis by blast
  next
    case False
    with k show ?thesis by auto
  qed
qed

lemma doubling_values:
  "\<exists>k\<le>10. s = 128 * 2 ^ k \<Longrightarrow> \<forall>l\<in>set (doubling s ns). \<exists>k\<le>10. l = 128 * 2 ^ k"
proof (induction ns arbitrary: s)
  case Nil
  then show ?case by simp
next
  case (Cons n ns)
  from Cons.IH [OF doubling_step [OF Cons.prems, of n]] Cons.prems show ?case by simp
qed

lemma doubling_ge: "\<forall>l\<in>set (doubling s ns). s \<le> l"
proof (induction ns arbitrary: s)
  case Nil
  then show ?case by simp
next
  case (Cons n ns)
  from Cons.IH [of "if n = int s \<and> s < 128 * 1024 then 2 * s else s"] show ?case
    by (auto split: if_splits)
qed

lemma doubling_sorted: "sorted (doubling s ns)"
proof (induction ns arbitrary: s)
  case Nil
  then show ?case by simp
next
  case (Cons n ns)
  from doubling_ge [of "if n = int s \<and> s < 128 * 1024 then 2 * s else s" ns] Cons.IH
  show ?case by (auto split: if_splits)
qed

lemma doubling_length [simp]: "length (doubling s ns) = length ns"
  by (induction ns arbitrary: s) simp_all

text \<open>The arrays have the length \<open>psize\<close>.\<close>

lemma Wait_grow_sized:
  assumes "psize p = int (events_len p)" and "barriers_len p = events_len p"
  shows "psize (Wait_grow p n) = int (events_len (Wait_grow p n))"
    and "barriers_len (Wait_grow p n) = events_len (Wait_grow p n)"
    and "events_len (Wait_grow p n) =
      (if n = int (events_len p) \<and> events_len p < 128 * 1024 then 2 * events_len p
       else events_len p)"
  using assms by (auto simp: Wait_grow_def reset_def)

lemma Wait_loop_lens:
  "Wait_loop p n msec rs = (res, t, p') \<Longrightarrow> psize p = int (events_len p) \<Longrightarrow>
   barriers_len p = events_len p \<Longrightarrow>
     wait_lens t = take (length (wait_lens t)) (doubling (events_len (Wait_grow p n)) (map ret_n rs))
     \<and> (res = Running \<longrightarrow> length (wait_lens t) = length rs)
     \<and> psize p' = int (events_len p') \<and> barriers_len p' = events_len p'
     \<and> (events_len p' = events_len p
          \<or> events_len p' \<in> set (doubling (events_len (Wait_grow p n)) (map ret_n rs)))"
proof (induction rs arbitrary: p n msec res t p')
  case Nil
  then show ?case by (auto simp: Wait_grow_def reset_def)
next
  case (Cons r rs)
  let ?p1 = "Wait_grow p n"
  let ?t1 = "SysEpollWait (fd p) (events_len ?p1) msec"
  note s1 = Wait_grow_sized [OF Cons.prems(2,3), of n]
  show ?case
  proof (cases "ret_err r \<noteq> None \<and> ret_err r \<noteq> Some EINTR")
    case True
    with Cons.prems(1) s1 show ?thesis by (auto simp: Let_def)
  next
    case ok: False
    show ?thesis
    proof (cases "ret_n r \<le> 0")
      case True
      obtain res2 t2 p2 where r2: "Wait_loop ?p1 (ret_n r) (- 1) rs = (res2, t2, p2)"
        by (cases "Wait_loop ?p1 (ret_n r) (- 1) rs") auto
      from Cons.prems(1) ok True r2 have e: "res = res2" "t = ?t1 # Gosched # t2" "p' = p2"
        by (auto simp: Let_def)
      note ih = Cons.IH [OF r2 s1(1,2)]
      note s2 = Wait_grow_sized(3) [OF s1(1,2), of "ret_n r"]
      from ih e s2 show ?thesis by auto
    next
      case pos: False
      show ?thesis
      proof (cases "int (events_len ?p1) < ret_n r")
        case True
        with Cons.prems(1) ok pos s1 show ?thesis by (auto simp: Let_def)
      next
        case False
        obtain rh th ph where h:
          "handler ?p1 (map (ret_events r) [0..<nat (ret_n r)]) = (rh, th, ph)"
          by (cases "handler ?p1 (map (ret_events r) [0..<nat (ret_n r)])") auto
        note hp = handler_props(1,2,3) [OF h]
        from hp(1) s1 have sh: "psize ph = int (events_len ph)" "barriers_len ph = events_len ph"
          "events_len ph = events_len ?p1" by simp_all
        show ?thesis
        proof (cases rh)
          case (Return b)
          show ?thesis
          proof (cases b)
            case True
            with Cons.prems(1) ok pos False h Return
            have "res = Return None" "t = ?t1 # th" "p' = ph" by (auto simp: Let_def)
            with hp(2) sh show ?thesis by auto
          next
            case nb: False
            obtain res2 t2 p2 where r2: "Wait_loop ph (ret_n r) 0 rs = (res2, t2, p2)"
              by (cases "Wait_loop ph (ret_n r) 0 rs") auto
            from Cons.prems(1) ok pos False h Return nb r2
            have e: "res = res2" "t = ?t1 # th @ OpcacheFree # t2" "p' = p2"
              by (auto simp: Let_def)
            note ih = Cons.IH [OF r2 sh(1,2)]
            note s2 = Wait_grow_sized(3) [OF sh(1,2), of "ret_n r"]
            from ih e s2 sh(3) hp(2) show ?thesis by auto
          qed
        next
          case Panic
          with Cons.prems(1) ok pos False h
          have "res = Panic" "t = ?t1 # th" "p' = ph" by (auto simp: Let_def)
          with hp(2) sh show ?thesis by auto
        next
          case Running
          with hp(3) show ?thesis by simp
        qed
      qed
    qed
  qed
qed

text \<open>
  C6.  Within one \<open>Wait\<close>, the lengths of the event array in the successive
  \<open>EpollWait\<close> calls follow the rule of the spec (\<open>doubling\<close>): the first is 128, and
  each next one is the double of the one before exactly when the call before returned a
  count equal to its length and that length is below \<open>128 * 1024\<close>, and the same length
  otherwise.  So the lengths never decrease and each is \<open>128 * 2 ^ k\<close> with
  \<open>k \<le> 10\<close>.  The barrier array has the length of the event array, which is
  \<open>size\<close>.
\<close>

theorem Wait_sizes:
  assumes "Wait p rs = (res, t, p')"
  shows "wait_lens t = take (length (wait_lens t)) (doubling 128 (map ret_n rs))
    \<and> (res = Running \<longrightarrow> wait_lens t = doubling 128 (map ret_n rs))
    \<and> (\<forall>l\<in>set (wait_lens t). \<exists>k\<le>10. l = 128 * 2 ^ k)
    \<and> sorted (wait_lens t)
    \<and> (\<exists>k\<le>10. events_len p' = 128 * 2 ^ k)
    \<and> barriers_len p' = events_len p' \<and> psize p' = int (events_len p')"
proof -
  let ?p0 = "reset p 128 barriercap"
  have p0: "psize ?p0 = int (events_len ?p0)" "barriers_len ?p0 = events_len ?p0"
    "events_len (Wait_grow ?p0 0) = 128"
    by (simp_all add: reset_def Wait_grow_def)
  from assms have w: "Wait_loop ?p0 0 (- 1) rs = (res, t, p')" by (simp add: Wait_def)
  note l = Wait_loop_lens [OF w p0(1,2), unfolded p0(3)]
  have b: "\<exists>k\<le>10. (128 :: nat) = 128 * 2 ^ k" by (intro exI [of _ 0]) simp
  note v = doubling_values [OF b, of "map ret_n rs"]
  from l have pre: "wait_lens t = take (length (wait_lens t)) (doubling 128 (map ret_n rs))"
    by simp
  have sub: "set (wait_lens t) \<subseteq> set (doubling 128 (map ret_n rs))"
    by (subst pre) (rule set_take_subset)
  have srt: "sorted (wait_lens t)"
    by (subst pre) (rule sorted_wrt_take [OF doubling_sorted])
  from l v b have fin: "\<exists>k\<le>10. events_len p' = 128 * 2 ^ k"
    by (auto simp: reset_def)
  from l have run: "res = Running \<longrightarrow> wait_lens t = doubling 128 (map ret_n rs)"
    by (metis doubling_length length_map take_all_iff order_refl)
  from pre run sub v srt fin l show ?thesis by blast
qed

theorem Wait_sizes_witness:
  "wait_lens (fst (snd (Wait (new_poll 3 4) [full_batch, interrupted]))) = [128, 256]
   \<and> events_len (snd (snd (Wait (new_poll 3 4) [full_batch, interrupted]))) = 256"
proof -
  let ?w = "Wait (new_poll 3 4) [full_batch, interrupted]"
  have r: "fst ?w = Running" by code_simp
  have e: "events_len (snd (snd ?w)) = 256" by code_simp
  have "?w = (Running, fst (snd ?w), snd (snd ?w))"
    by (metis r prod.collapse)
  from Wait_sizes [OF this]
  have "wait_lens (fst (snd ?w)) = doubling 128 (map ret_n [full_batch, interrupted])"
    by simp
  also have "\<dots> = [128, 256]" by (simp add: full_batch_def interrupted_def)
  finally show ?thesis using e by simp
qed

text \<open>
  When no count exceeds the length of the array it was returned for (the contract of
  \<open>epoll_wait\<close>) and the read buffer is not empty, \<open>Wait\<close> does not panic.
\<close>

lemma Wait_loop_no_panic:
  "Wait_loop p n msec rs = (res, t, p') \<Longrightarrow> psize p = int (events_len p) \<Longrightarrow>
   barriers_len p = events_len p \<Longrightarrow> buf p \<noteq> [] \<Longrightarrow>
   list_all2 (\<lambda>r s. ret_n r \<le> int s) rs (doubling (events_len (Wait_grow p n)) (map ret_n rs)) \<Longrightarrow>
     res \<noteq> Panic"
proof (induction rs arbitrary: p n msec res t p')
  case Nil
  then show ?case by simp
next
  case (Cons r rs)
  let ?p1 = "Wait_grow p n"
  note s1 = Wait_grow_sized [OF Cons.prems(2,3), of n]
  from Cons.prems(5) have le: "ret_n r \<le> int (events_len ?p1)"
    and rest: "list_all2 (\<lambda>r s. ret_n r \<le> int s) rs
      (doubling (if ret_n r = int (events_len ?p1) \<and> events_len ?p1 < 128 * 1024
                 then 2 * events_len ?p1 else events_len ?p1) (map ret_n rs))"
    by simp_all
  show ?case
  proof (cases "ret_err r \<noteq> None \<and> ret_err r \<noteq> Some EINTR")
    case True
    with Cons.prems(1) show ?thesis by (auto simp: Let_def)
  next
    case ok: False
    show ?thesis
    proof (cases "ret_n r \<le> 0")
      case True
      obtain res2 t2 p2 where r2: "Wait_loop ?p1 (ret_n r) (- 1) rs = (res2, t2, p2)"
        by (cases "Wait_loop ?p1 (ret_n r) (- 1) rs") auto
      from Cons.prems(1) ok True r2 have e: "res = res2" by (auto simp: Let_def)
      from Cons.prems(4) have b1: "buf ?p1 \<noteq> []" by simp
      from rest Wait_grow_sized(3) [OF s1(1,2), of "ret_n r"]
      have "list_all2 (\<lambda>r s. ret_n r \<le> int s) rs
          (doubling (events_len (Wait_grow ?p1 (ret_n r))) (map ret_n rs))"
        by (auto split: if_splits)
      from Cons.IH [OF r2 s1(1,2) b1 this] e show ?thesis by simp
    next
      case pos: False
      obtain rh th ph where h:
        "handler ?p1 (map (ret_events r) [0..<nat (ret_n r)]) = (rh, th, ph)"
        by (cases "handler ?p1 (map (ret_events r) [0..<nat (ret_n r)])") auto
      note hp = handler_props(1,3) [OF h]
      from Cons.prems(4) have b1: "buf ?p1 \<noteq> []" by simp
      from le s1(2) have "length (map (ret_events r) [0..<nat (ret_n r)]) \<le> barriers_len ?p1"
        by simp
      from handler_no_panic [OF b1 this] h have np: "rh \<noteq> Panic" by simp
      from hp(1) s1 have sh: "psize ph = int (events_len ph)" "barriers_len ph = events_len ph"
        "events_len ph = events_len ?p1" by simp_all
      from hp(1) b1 have b2: "buf ph \<noteq> []" by auto
      show ?thesis
      proof (cases rh)
        case (Return b)
        show ?thesis
        proof (cases b)
          case True
          with Cons.prems(1) ok pos le h Return show ?thesis by (auto simp: Let_def)
        next
          case nb: False
          obtain res2 t2 p2 where r2: "Wait_loop ph (ret_n r) 0 rs = (res2, t2, p2)"
            by (cases "Wait_loop ph (ret_n r) 0 rs") auto
          from Cons.prems(1) ok pos le h Return nb r2 have e: "res = res2"
            by (auto simp: Let_def)
          from rest sh(3) Wait_grow_sized(3) [OF sh(1,2), of "ret_n r"]
          have "list_all2 (\<lambda>r s. ret_n r \<le> int s) rs
              (doubling (events_len (Wait_grow ph (ret_n r))) (map ret_n rs))"
            by (auto split: if_splits)
          from Cons.IH [OF r2 sh(1,2) b2 this] e show ?thesis by simp
        qed
      next
        case Panic
        with np show ?thesis by simp
      next
        case Running
        with hp(2) show ?thesis by simp
      qed
    qed
  qed
qed

lemma Wait_no_panic:
  assumes "buf q \<noteq> []"
    and "list_all2 (\<lambda>r s. ret_n r \<le> int s) rs (doubling 128 (map ret_n rs))"
  shows "fst (Wait q rs) \<noteq> Panic"
proof -
  let ?p0 = "reset q 128 barriercap"
  have p0: "psize ?p0 = int (events_len ?p0)" "barriers_len ?p0 = events_len ?p0"
    "events_len (Wait_grow ?p0 0) = 128" "buf ?p0 \<noteq> []"
    using assms(1) by (simp_all add: reset_def Wait_grow_def)
  obtain res t p' where w: "Wait_loop ?p0 0 (- 1) rs = (res, t, p')"
    by (cases "Wait_loop ?p0 0 (- 1) rs") auto
  from Wait_loop_no_panic [OF w p0(1,2,4)] assms(2) p0(3) w show ?thesis
    by (simp add: Wait_def)
qed

section \<open>Errors of epoll_wait\<close>

text \<open>
  C7.  When \<open>EpollWait\<close> returns an error other than \<open>EINTR\<close>, \<open>Wait\<close> returns
  that error at once.  \<open>EINTR\<close> is handled exactly as no error: it is not returned, and
  with a count that is not positive the loop yields and calls \<open>EpollWait\<close> again,
  blocking.  Over a whole run: an error that \<open>Wait\<close> returns is not \<open>EINTR\<close> and is
  an error that \<open>EpollWait\<close> returned; and when \<open>Wait\<close> returns nil, its last calls
  are those of the shutdown branch of the handler (closing the eventfd, closing the epoll
  descriptor, \<open>done()\<close>).  There is no other exit: with a read buffer that is not empty
  and counts within the array, \<open>Wait\<close> does not panic.
\<close>

theorem Wait_error_return:
  "(ret_err r = Some e \<and> e \<noteq> EINTR \<longrightarrow>
      Wait_loop p n msec (r # rs) =
        (Return (Some e), [SysEpollWait (fd p) (events_len (Wait_grow p n)) msec], Wait_grow p n))
   \<and> Wait_loop p n msec (r\<lparr>ret_err := Some EINTR\<rparr> # rs) =
       Wait_loop p n msec (r\<lparr>ret_err := None\<rparr> # rs)
   \<and> (ret_err r = Some EINTR \<and> ret_n r \<le> 0 \<longrightarrow>
        Wait_loop p n msec (r # rs) =
          (case Wait_loop (Wait_grow p n) (ret_n r) (- 1) rs of
             (res, t, p') \<Rightarrow>
               (res, SysEpollWait (fd p) (events_len (Wait_grow p n)) msec # Gosched # t, p')))
   \<and> (fst (Wait q rs) = Return (Some e) \<longrightarrow> e \<noteq> EINTR \<and> (\<exists>x\<in>set rs. ret_err x = Some e))
   \<and> (Wait q rs = (Return None, tq, q') \<longrightarrow>
        (\<exists>t0 operator. tq = t0 @ [SysClose (FD (wop q)), SysClose (fd q), CallDone operator]))
   \<and> (buf q \<noteq> [] \<and> list_all2 (\<lambda>x s. ret_n x \<le> int s) rs (doubling 128 (map ret_n rs))
        \<longrightarrow> fst (Wait q rs) \<noteq> Panic)"
proof -
  have a: "Wait_loop p n msec (r # rs) =
        (Return (Some e), [SysEpollWait (fd p) (events_len (Wait_grow p n)) msec], Wait_grow p n)"
    if "ret_err r = Some e" "e \<noteq> EINTR"
    using that by (simp add: Let_def)
  have b: "Wait_loop p n msec (r\<lparr>ret_err := Some EINTR\<rparr> # rs) =
       Wait_loop p n msec (r\<lparr>ret_err := None\<rparr> # rs)"
    by (simp add: Let_def split: prod.split outcome.split bool.split)
  have c: "Wait_loop p n msec (r # rs) =
          (case Wait_loop (Wait_grow p n) (ret_n r) (- 1) rs of
             (res, t, p') \<Rightarrow>
               (res, SysEpollWait (fd p) (events_len (Wait_grow p n)) msec # Gosched # t, p'))"
    if "ret_err r = Some EINTR" "ret_n r \<le> 0"
    using that by (simp add: Let_def)
  obtain res t1 q1 where w: "Wait_loop (reset q 128 barriercap) 0 (- 1) rs = (res, t1, q1)"
    by (cases "Wait_loop (reset q 128 barriercap) 0 (- 1) rs") auto
  note x = Wait_loop_exits [OF w]
  have fr: "fd (reset q 128 barriercap) = fd q" "wop (reset q 128 barriercap) = wop q"
    by (simp_all add: reset_def)
  have d: "e \<noteq> EINTR \<and> (\<exists>x\<in>set rs. ret_err x = Some e)"
    if "fst (Wait q rs) = Return (Some e)"
    using that x w by (simp add: Wait_def)
  have f: "\<exists>t0 operator. tq = t0 @ [SysClose (FD (wop q)), SysClose (fd q), CallDone operator]"
    if "Wait q rs = (Return None, tq, q')"
    using that x w fr by (simp add: Wait_def)
  have g: "fst (Wait q rs) \<noteq> Panic"
    if "buf q \<noteq> []" "list_all2 (\<lambda>x s. ret_n x \<le> int s) rs (doubling 128 (map ret_n rs))"
    using Wait_no_panic [OF that] .
  from a b c d f g show ?thesis by blast
qed

theorem Wait_error_return_witness:
  "Wait (new_poll 3 4) [interrupted, failing] =
     (Return (Some 9), [SysEpollWait 3 128 (- 1), Gosched, SysEpollWait 3 128 (- 1)], poll34)"
proof -
  have g: "Wait_grow poll34 0 = poll34" "\<And>n. n \<le> 0 \<Longrightarrow> Wait_grow poll34 n = poll34"
    by (simp_all add: Wait_grow_def poll34_def reset_def)
  have "ret_err failing = Some 9 \<and> 9 \<noteq> EINTR" by (simp add: failing_def EINTR_def)
  with Wait_error_return [of failing 9 poll34 "- 1" "- 1" "[]"]
  have 1: "Wait_loop poll34 (- 1) (- 1) [failing] =
      (Return (Some 9), [SysEpollWait 3 128 (- 1)], poll34)"
    by (simp add: g) (simp add: poll34_def reset_def new_poll_def)
  have "ret_err interrupted = Some EINTR \<and> ret_n interrupted \<le> 0 \<and> ret_n interrupted = - 1"
    by (simp add: interrupted_def)
  with Wait_error_return [of interrupted 9 poll34 0 "- 1" "[failing]"] 1
  have "Wait_loop poll34 0 (- 1) [interrupted, failing] =
      (Return (Some 9), [SysEpollWait 3 128 (- 1), Gosched, SysEpollWait 3 128 (- 1)], poll34)"
    by (simp add: g) (simp add: poll34_def reset_def new_poll_def)
  then show ?thesis by (simp add: Wait_def poll34_def)
qed

section \<open>Shutdown in the middle of a batch\<close>

text \<open>
  C10.  When the handler returns true for a batch, it returns the same result, calls and
  poller for that batch followed by any further events: the events after the wake event
  are not handled (\<open>do()\<close> is called for a prefix of the batch that ends with the wake
  event).  No goroutine is started for the hang-ups: the callbacks of the operators
  detached in this batch are still in \<open>hups\<close>.  \<open>opcache.free()\<close> is not called, and
  \<open>Wait\<close> returns nil right after the calls of the handler.
\<close>

theorem shutdown_ends_batch:
  assumes "handler p evs = (Return True, t, p')"
  shows "handler p (evs @ rest) = (Return True, t, p')
    \<and> (\<exists>k. 0 < k \<and> k \<le> length evs \<and> do_calls t = map (\<lambda>x. data (fst x)) (take k evs)
          \<and> FD (data (fst (evs ! (k - 1)))) = FD (wop p))
    \<and> \<not> list_ex is_go t \<and> hups p' = hups p @ hups_of t \<and> OpcacheFree \<notin> set t
    \<and> (Wait_grow q n = p \<and> map (ret_events r) [0..<nat (ret_n r)] = evs
         \<and> (ret_err r = None \<or> ret_err r = Some EINTR) \<and> 0 < ret_n r
         \<and> ret_n r \<le> int (events_len p)
        \<longrightarrow> Wait_loop q n msec (r # rs) =
              (Return None, SysEpollWait (fd p) (events_len p) msec # t, p'))"
proof -
  obtain f tl pl where l: "handler_loop p 0 evs = (f, tl, pl)"
    by (cases "handler_loop p 0 evs") auto
  from assms [unfolded handler_eq [OF l]] have f: "f = ReturnTrue" "tl = t" "pl = p'"
    by (auto split: if_splits)
  from handler_loop_exit_append [OF l [unfolded f], of rest]
  have 1: "handler p (evs @ rest) = (Return True, t, p')"
    by (simp add: handler_def)
  from handler_loop_all [OF l [unfolded f]]
  have 2: "\<exists>k. 0 < k \<and> k \<le> length evs \<and> do_calls t = map (\<lambda>x. data (fst x)) (take k evs)
          \<and> FD (data (fst (evs ! (k - 1)))) = FD (wop p)"
    by auto
  from handler_props(4) [OF assms]
  have 3: "\<not> list_ex is_go t \<and> hups p' = hups p @ hups_of t \<and> OpcacheFree \<notin> set t"
    by simp
  have 4: "Wait_loop q n msec (r # rs) =
              (Return None, SysEpollWait (fd p) (events_len p) msec # t, p')"
    if c: "Wait_grow q n = p" "map (ret_events r) [0..<nat (ret_n r)] = evs"
      "ret_err r = None \<or> ret_err r = Some EINTR" "0 < ret_n r" "ret_n r \<le> int (events_len p)"
  proof -
    from assms c have "handler (Wait_grow q n) (map (ret_events r) [0..<nat (ret_n r)]) =
        (Return True, t, p')" by simp
    from Wait_loop_closed [OF this c(3,4), of msec rs] c(1,5) show ?thesis by auto
  qed
  from 1 2 3 4 show ?thesis by blast
qed

theorem shutdown_ends_batch_witness:
  "handler poll34 hup_close_batch =
     (Return True,
      [CallDo conn7, CallInputs conn7 0, SysReadv 7 0, CallInputAck conn7 6,
       CallControl conn7 PollDetach, CallDone conn7,
       CallDo (wop poll34), SysRead 4 8, StoreTrigger 0, SysClose 4, SysClose 3,
       CallDone (wop poll34)],
      poll34\<lparr>hups := [Some 70], buf := close_bytes\<rparr>)
   \<and> Wait (new_poll 3 4) [closing] =
     (Return None,
      [SysEpollWait 3 128 (- 1),
       CallDo conn7, CallInputs conn7 0, SysReadv 7 0, CallInputAck conn7 6,
       CallControl conn7 PollDetach, CallDone conn7,
       CallDo (wop poll34), SysRead 4 8, StoreTrigger 0, SysClose 4, SysClose 3,
       CallDone (wop poll34)],
      poll34\<lparr>hups := [Some 70], buf := close_bytes\<rparr>)"
proof -
  have h: "handler poll34 hup_close_batch =
     (Return True,
      [CallDo conn7, CallInputs conn7 0, SysReadv 7 0, CallInputAck conn7 6,
       CallControl conn7 PollDetach, CallDone conn7,
       CallDo (wop poll34), SysRead 4 8, StoreTrigger 0, SysClose 4, SysClose 3,
       CallDone (wop poll34)],
      poll34\<lparr>hups := [Some 70], buf := close_bytes\<rparr>)"
    by (simp add: hup_close_batch_def model_defs)
  have m: "map (ret_events closing) [0..<nat (ret_n closing)] =
      hup_close_batch @ [(\<lparr>events = EPOLLIN, data = listener5\<rparr>, quiet [])]"
    by (simp add: closing_def hup_close_batch_def upt_rec)
  have c: "Wait_grow poll34 0 = poll34"
    "ret_err closing = None \<or> ret_err closing = Some EINTR" "0 < ret_n closing"
    "ret_n closing \<le> int (events_len poll34)" "fd poll34 = 3" "events_len poll34 = 128"
    by (simp_all add: Wait_grow_def poll34_def reset_def closing_def new_poll_def)
  let ?rest = "[(\<lparr>events = EPOLLIN, data = listener5\<rparr>, quiet [])]"
  from shutdown_ends_batch [OF h, of ?rest]
  have h3: "handler poll34 (hup_close_batch @ ?rest) =
     (Return True,
      [CallDo conn7, CallInputs conn7 0, SysReadv 7 0, CallInputAck conn7 6,
       CallControl conn7 PollDetach, CallDone conn7,
       CallDo (wop poll34), SysRead 4 8, StoreTrigger 0, SysClose 4, SysClose 3,
       CallDone (wop poll34)],
      poll34\<lparr>hups := [Some 70], buf := close_bytes\<rparr>)"
    by simp
  from shutdown_ends_batch [OF h3, of "[]" poll34 0 closing "- 1" "[]"] m c
  have "Wait_loop poll34 0 (- 1) [closing] =
     (Return None,
      [SysEpollWait 3 128 (- 1),
       CallDo conn7, CallInputs conn7 0, SysReadv 7 0, CallInputAck conn7 6,
       CallControl conn7 PollDetach, CallDone conn7,
       CallDo (wop poll34), SysRead 4 8, StoreTrigger 0, SysClose 4, SysClose 3,
       CallDone (wop poll34)],
      poll34\<lparr>hups := [Some 70], buf := close_bytes\<rparr>)"
    by simp
  with h show ?thesis by (simp add: Wait_def poll34_def)
qed

section \<open>The wake event\<close>

text \<open>
  C5.  \<open>Close\<close> writes 8 bytes to the eventfd, the first of which is 1.  For the event
  of the wake descriptor (after \<open>do()\<close>), with the 8-byte buffer and a \<open>read\<close> that
  delivers 8 bytes: the handler reads, stores 0 in the trigger flag, and looks at byte 0
  of what it read.  When the byte is not zero it closes the eventfd, then the epoll
  descriptor, calls \<open>done()\<close> and returns true; when the byte is zero it calls
  \<open>done()\<close> and goes on with the next event, closing nothing.  When the handler returns
  true, \<open>Wait\<close> returns nil.
\<close>

theorem wake_event:
  "Close p c = (c, [SysWrite (FD (wop p)) [1, 0, 0, 0, 0, 0, 0, 0]])
   \<and> [1, 0, 0, 0, 0, 0, 0, 0 :: 8 word] ! 0 = 1
   \<and> length [1, 0, 0, 0, 0, 0, 0, 0 :: 8 word] = 8
   \<and> (do_ret w \<and> FD (data ev) = FD (wop p) \<and> length (buf p) = 8 \<and> length (read_ret w) = 8
        \<longrightarrow> handler_body p i ev w =
           (if read_ret w ! 0 \<noteq> 0 then
              (ReturnTrue,
               [CallDo (data ev), SysRead (FD (wop p)) 8, StoreTrigger 0,
                SysClose (FD (wop p)), SysClose (fd p), CallDone (data ev)],
               p\<lparr>buf := read_ret w, trigger := 0\<rparr>)
            else
              (Continue,
               [CallDo (data ev), SysRead (FD (wop p)) 8, StoreTrigger 0, CallDone (data ev)],
               p\<lparr>buf := read_ret w, trigger := 0\<rparr>)))
   \<and> (do_ret w \<and> FD (data ev) = FD (wop p) \<and> length (buf p) = 8 \<and> length (read_ret w) = 8
        \<and> read_ret w ! 0 \<noteq> 0
        \<longrightarrow> handler p ((ev, w) # rest) =
              (Return True,
               [CallDo (data ev), SysRead (FD (wop p)) 8, StoreTrigger 0,
                SysClose (FD (wop p)), SysClose (fd p), CallDone (data ev)],
               p\<lparr>buf := read_ret w, trigger := 0\<rparr>))
   \<and> (handler (Wait_grow q n) (map (ret_events r) [0..<nat (ret_n r)]) = (Return True, th, p2)
        \<and> (ret_err r = None \<or> ret_err r = Some EINTR) \<and> 0 < ret_n r
        \<and> ret_n r \<le> int (events_len (Wait_grow q n))
        \<longrightarrow> Wait_loop q n msec (r # rs) =
              (Return None, SysEpollWait (fd q) (events_len (Wait_grow q n)) msec # th, p2))"
proof -
  have b: "handler_body p i ev w =
           (if read_ret w ! 0 \<noteq> 0 then
              (ReturnTrue,
               [CallDo (data ev), SysRead (FD (wop p)) 8, StoreTrigger 0,
                SysClose (FD (wop p)), SysClose (fd p), CallDone (data ev)],
               p\<lparr>buf := read_ret w, trigger := 0\<rparr>)
            else
              (Continue,
               [CallDo (data ev), SysRead (FD (wop p)) 8, StoreTrigger 0, CallDone (data ev)],
               p\<lparr>buf := read_ret w, trigger := 0\<rparr>))"
    if c: "do_ret w" "FD (data ev) = FD (wop p)" "length (buf p) = 8" "length (read_ret w) = 8"
    for i
  proof -
    from c(3,4) have r: "sys_read (buf p) (read_ret w) = read_ret w"
      by (simp add: sys_read_def)
    from c(4) obtain b bs where bs: "read_ret w = b # bs" by (cases "read_ret w") auto
    with c r show ?thesis by (simp add: body_wake)
  qed
  have h: "handler p ((ev, w) # rest) =
              (Return True,
               [CallDo (data ev), SysRead (FD (wop p)) 8, StoreTrigger 0,
                SysClose (FD (wop p)), SysClose (fd p), CallDone (data ev)],
               p\<lparr>buf := read_ret w, trigger := 0\<rparr>)"
    if c: "do_ret w" "FD (data ev) = FD (wop p)" "length (buf p) = 8" "length (read_ret w) = 8"
      "read_ret w ! 0 \<noteq> 0"
  proof -
    from b [OF c(1-4), of 0] c(5)
    have "handler_body p 0 (fst (ev, w)) (snd (ev, w)) =
        (ReturnTrue,
         [CallDo (data ev), SysRead (FD (wop p)) 8, StoreTrigger 0,
          SysClose (FD (wop p)), SysClose (fd p), CallDone (data ev)],
         p\<lparr>buf := read_ret w, trigger := 0\<rparr>)" by simp
    from handler_loop_Cons [OF this, of rest] show ?thesis
      by (simp add: handler_eq)
  qed
  have w: "Wait_loop q n msec (r # rs) =
              (Return None, SysEpollWait (fd q) (events_len (Wait_grow q n)) msec # th, p2)"
    if "handler (Wait_grow q n) (map (ret_events r) [0..<nat (ret_n r)]) = (Return True, th, p2)"
      "ret_err r = None \<or> ret_err r = Some EINTR" "0 < ret_n r"
      "ret_n r \<le> int (events_len (Wait_grow q n))"
    using Wait_loop_closed [OF that] .
  from b h w show ?thesis by (simp add: Close_def)
qed

theorem wake_event_witness:
  "Close poll34 None = (None, [SysWrite 4 close_bytes])
   \<and> handler_body poll34 0 \<lparr>events = EPOLLIN, data = wop poll34\<rparr> (quiet trigger_bytes) =
       (Continue, [CallDo (wop poll34), SysRead 4 8, StoreTrigger 0, CallDone (wop poll34)],
        poll34\<lparr>buf := trigger_bytes\<rparr>)
   \<and> Wait (new_poll 3 4) [close_wake] =
       (Return None,
        [SysEpollWait 3 128 (- 1), CallDo (wop poll34), SysRead 4 8, StoreTrigger 0,
         SysClose 4, SysClose 3, CallDone (wop poll34)],
        poll34\<lparr>buf := close_bytes\<rparr>)"
proof -
  let ?ev = "\<lparr>events = EPOLLIN, data = wop poll34\<rparr>"
  have c: "do_ret (quiet trigger_bytes)" "do_ret (quiet close_bytes)"
    "FD (data ?ev) = FD (wop poll34)" "length (buf poll34) = 8"
    "length (read_ret (quiet trigger_bytes)) = 8" "length (read_ret (quiet close_bytes)) = 8"
    "read_ret (quiet trigger_bytes) ! 0 = 0" "read_ret (quiet close_bytes) ! 0 \<noteq> 0"
    "read_ret (quiet trigger_bytes) = trigger_bytes" "read_ret (quiet close_bytes) = close_bytes"
    "FD (wop poll34) = 4" "fd poll34 = 3" "trigger poll34 = 0" "data ?ev = wop poll34"
    by (simp_all add: quiet_def trigger_bytes_def close_bytes_def poll34_def new_poll_def
        reset_def)
  have t0: "poll34\<lparr>buf := trigger_bytes, trigger := 0\<rparr> = poll34\<lparr>buf := trigger_bytes\<rparr>"
    "poll34\<lparr>buf := close_bytes, trigger := 0\<rparr> = poll34\<lparr>buf := close_bytes\<rparr>"
    by (simp_all add: poll34_def new_poll_def reset_def)
  have g: "Wait_grow poll34 0 = poll34" "events_len poll34 = 128"
    "map (ret_events close_wake) [0..<nat (ret_n close_wake)] = [(?ev, quiet close_bytes)]"
    "ret_err close_wake = None" "ret_n close_wake = 1"
    by (simp_all add: Wait_grow_def poll34_def reset_def new_poll_def close_wake_def)
  from wake_event [of poll34 None "quiet trigger_bytes" ?ev 0] c
  have 1: "Close poll34 None = (None, [SysWrite 4 close_bytes])
    \<and> handler_body poll34 0 ?ev (quiet trigger_bytes) =
       (Continue, [CallDo (wop poll34), SysRead 4 8, StoreTrigger 0, CallDone (wop poll34)],
        poll34\<lparr>buf := trigger_bytes\<rparr>)"
    by (simp add: t0 close_bytes_def)
  from wake_event [of poll34 None "quiet close_bytes" ?ev 0 "[]"] c
  have 2: "handler poll34 [(?ev, quiet close_bytes)] =
      (Return True,
       [CallDo (wop poll34), SysRead 4 8, StoreTrigger 0, SysClose 4, SysClose 3,
        CallDone (wop poll34)],
       poll34\<lparr>buf := close_bytes\<rparr>)"
    by (simp add: t0)
  from wake_event [of poll34 None "quiet close_bytes" ?ev 0 "[]" poll34 0 close_wake
      "[CallDo (wop poll34), SysRead 4 8, StoreTrigger 0, SysClose 4, SysClose 3,
        CallDone (wop poll34)]" "poll34\<lparr>buf := close_bytes\<rparr>" "- 1" "[]"] 2 g c(12)
  have "Wait_loop poll34 0 (- 1) [close_wake] =
       (Return None,
        [SysEpollWait 3 128 (- 1), CallDo (wop poll34), SysRead 4 8, StoreTrigger 0,
         SysClose 4, SysClose 3, CallDone (wop poll34)],
        poll34\<lparr>buf := close_bytes\<rparr>)"
    by simp
  with 1 show ?thesis by (simp add: Wait_def poll34_def)
qed

end
